theory Spec2Isabelle
  imports Complex_Main "HOL-Library.Sublist" "HOL-Library.Multiset"
begin

section \<open>The relay controller of the OpenWeedLocator (relay_control.py)\<close>

text \<open>
  The module has two classes. \<open>RelayControl\<close> owns the dictionary from solenoid (nozzle)
  numbers to relay objects and switches relays. \<open>Controller\<close> owns one job queue, one
  condition variable and one consumer thread per nozzle; \<open>receive\<close> is called by the
  detection loop and appends a job, \<open>consumer\<close> is the body of each thread.

  The console prints, the buzzer and the pause at the end of \<open>Controller.__init__\<close> touch
  nothing else and are left out.

  Times (\<open>time.time()\<close>, time stamps, delays and durations) are numbers; they are
  modelled as \<open>real\<close>. Python exceptions are values of \<open>error\<close>; a statement is a
  function from the state to the exception raised, if any, and the state reached, so
  that what was done before an exception stays done.
\<close>

subsection \<open>Data\<close>

type_synonym nozzle = int
type_synonym pin = nat

datatype error = KeyError | ValueError

text \<open>
  A call of \<open>relay.on()\<close> or \<open>relay.off()\<close>: the solenoid number under which the relay
  was looked up, and the board pin of the relay object.
\<close>

datatype call = On nozzle pin | Off nozzle pin

text \<open>
  \<open>solenoidDict\<close> is a Python dictionary, iterated in insertion order by \<open>all_on\<close> and
  \<open>all_off\<close>: an association list with distinct keys, read with \<open>map_of\<close>, so that its
  length is \<open>len(nozzleDict)\<close>. A relay object is
  represented by its board pin. \<open>calls\<close> is the history of the relay board: every
  \<open>on()\<close> and \<open>off()\<close> made so far, oldest first. The relay objects live on when the
  dictionary is replaced, so the history is a field of its own.
\<close>

record relayControl =
  solenoidDict :: "(nozzle \<times> pin) list"
  calls :: "call list"

text \<open>
  The job message \<open>[nozzle, timeStamp, delay, duration, location]\<close>, read by position
  in \<open>consumer\<close>: \<open>sprayJob[1]\<close> is the time stamp, \<open>sprayJob[2]\<close> the delay,
  \<open>sprayJob[3]\<close> the duration. The location is an opaque payload.
\<close>

datatype 'l sprayJob =
  SprayJob (job_nozzle: nozzle) (job_timeStamp: real) (job_delay: real)
           (job_duration: real) (job_location: 'l)

text \<open>
  The lines handed to \<open>Logger.log_line\<close>. \<open>Audit\<close> carries the five arguments of the
  format call in \<open>receive\<close>, in the order they are passed:
  nozzle, timeStamp, delay, duration, location. \<open>Info\<close> is the line
  \<open>[INFO] onDur {} for nozzle {} received.\<close> and \<open>Error\<close> the line
  \<open>[ERROR] negative onDur {} for nozzle {} received. Turning on for 0 seconds.\<close>
\<close>

datatype 'l logline =
  Audit nozzle real real real 'l
| Info real nozzle
| Error real nozzle

text \<open>
  Where a consumer thread stands between two of its critical sections:
  \<open>Ready\<close>: about to take the lock of its condition and test \<open>while nozzleQueue\<close>
  (at thread start, after a job, or notified out of \<open>wait()\<close>);
  \<open>Working job\<close>: has popped \<open>job\<close> and released the lock;
  \<open>Waiting\<close>: parked in \<open>inputCondition.wait()\<close>;
  \<open>Dead e\<close>: ended by the uncaught exception \<open>e\<close>.
\<close>

datatype 'l pc = Ready | Working "'l sprayJob" | Waiting | Dead error

text \<open>
  A consumer thread: its program point, its local \<open>nozzleOn\<close>, and what it has done so
  far: the jobs \<open>popleft\<close> returned and the arguments of the \<open>time.sleep\<close> calls that
  returned, oldest first.
\<close>

record 'l worker =
  pc :: "'l pc"
  nozzleOn :: bool
  popped :: "'l sprayJob list"
  slept :: "real list"

text \<open>
  The controller. \<open>nozzleconditionDict\<close> holds for each condition whether its lock is
  held (between two steps of the model only a thread that died inside its critical
  section holds it). \<open>logger\<close> is the log file, oldest line first.
\<close>

record 'l controller =
  solenoid :: relayControl
  nozzleQueueDict :: "nozzle \<rightharpoonup> 'l sprayJob list"
  nozzleconditionDict :: "nozzle \<rightharpoonup> bool"
  threads :: "nozzle \<rightharpoonup> 'l worker"
  logger :: "'l logline list"

subsection \<open>Statements\<close>

type_synonym 's stmt = "'s \<Rightarrow> error option \<times> 's"

definition skip :: "'s stmt" where
  "skip s = (None, s)"

definition seq :: "'s stmt \<Rightarrow> 's stmt \<Rightarrow> 's stmt" where
  "seq f g s = (case f s of (None, s') \<Rightarrow> g s' | (Some e, s') \<Rightarrow> (Some e, s'))"

text \<open>\<open>try: body except ValueError: handler\<close>\<close>

definition try_except_ValueError :: "'s stmt \<Rightarrow> 's stmt \<Rightarrow> 's stmt" where
  "try_except_ValueError body handler s =
     (case body s of
        (Some ValueError, s') \<Rightarrow> handler s'
      | r \<Rightarrow> r)"

fun for_each :: "('a \<Rightarrow> 's stmt) \<Rightarrow> 'a list \<Rightarrow> 's stmt" where
  "for_each f [] s = (None, s)"
| "for_each f (x # xs) s =
     (case f x s of (None, s') \<Rightarrow> for_each f xs s' | (Some e, s') \<Rightarrow> (Some e, s'))"

subsection \<open>RelayControl\<close>

definition RelayControl :: "(nozzle \<times> pin) list \<Rightarrow> relayControl" where
  "RelayControl solenoidDict0 = \<lparr>solenoidDict = solenoidDict0, calls = []\<rparr>"

definition relay_on :: "nozzle \<Rightarrow> relayControl stmt" where
  "relay_on solenoidNumber rc =
     (case map_of (solenoidDict rc) solenoidNumber of
        None \<Rightarrow> (Some KeyError, rc)
      | Some relay \<Rightarrow> (None, rc\<lparr>calls := calls rc @ [On solenoidNumber relay]\<rparr>))"

definition relay_off :: "nozzle \<Rightarrow> relayControl stmt" where
  "relay_off solenoidNumber rc =
     (case map_of (solenoidDict rc) solenoidNumber of
        None \<Rightarrow> (Some KeyError, rc)
      | Some relay \<Rightarrow> (None, rc\<lparr>calls := calls rc @ [Off solenoidNumber relay]\<rparr>))"

definition all_on :: "relayControl stmt" where
  "all_on rc = for_each relay_on (map fst (solenoidDict rc)) rc"

definition all_off :: "relayControl stmt" where
  "all_off rc = for_each relay_off (map fst (solenoidDict rc)) rc"


definition clear :: "relayControl \<Rightarrow> relayControl" where
  "clear rc = rc\<lparr>solenoidDict := []\<rparr>"

definition stop :: "relayControl stmt" where
  "stop rc = all_off (clear rc)"

text \<open>
  Whether the relay on a pin is energized: the last call made on it was \<open>on()\<close>. A relay
  never switched is off.
\<close>

fun call_pin :: "call \<Rightarrow> pin" where
  "call_pin (On n p) = p"
| "call_pin (Off n p) = p"

fun is_on :: "call \<Rightarrow> bool" where
  "is_on (On n p) = True"
| "is_on (Off n p) = False"

definition energized :: "call list \<Rightarrow> pin \<Rightarrow> bool" where
  "energized cs p =
     (case filter (\<lambda>c. call_pin c = p) cs of [] \<Rightarrow> False | c # cs' \<Rightarrow> is_on (last (c # cs')))"

subsection \<open>Controller\<close>

text \<open>
  \<open>Controller.__init__\<close>: a queue, a condition and a started thread for each of the
  numbers \<open>range(0, len(nozzleDict))\<close>, whatever the keys of \<open>nozzleDict\<close> are.
\<close>

definition Controller :: "(nozzle \<times> pin) list \<Rightarrow> 'l controller" where
  "Controller nozzleDict =
     \<lparr>solenoid = RelayControl nozzleDict,
      nozzleQueueDict = (\<lambda>nozzle. if 0 \<le> nozzle \<and> nozzle < int (length nozzleDict) then Some [] else None),
      nozzleconditionDict = (\<lambda>nozzle. if 0 \<le> nozzle \<and> nozzle < int (length nozzleDict) then Some False else None),
      threads = (\<lambda>nozzle. if 0 \<le> nozzle \<and> nozzle < int (length nozzleDict)
                           then Some \<lparr>pc = Ready, nozzleOn = False, popped = [], slept = []\<rparr> else None),
      logger = []\<rparr>"

text \<open>\<open>collections.deque(maxlen=5).append\<close>: append, then drop from the left if too long.\<close>

definition maxlen :: nat where
  "maxlen = 5"

definition deque_append :: "'a list \<Rightarrow> 'a \<Rightarrow> 'a list" where
  "deque_append q x = (let q' = q @ [x] in if length q' > maxlen then tl q' else q')"

text \<open>
  Modelled from the spec: \<open>Logger.log_line\<close> (module \<open>logger\<close>), an append-only line
  logger: it appends the line to the log and raises nothing.
\<close>

definition log_line :: "'l logline \<Rightarrow> 'l controller stmt" where
  "log_line line c = (None, c\<lparr>logger := logger c @ [line]\<rparr>)"

text \<open>\<open>inputCondition.notify()\<close>: a thread parked in \<open>wait()\<close> becomes runnable.\<close>

definition notify :: "nozzle \<Rightarrow> 'l controller \<Rightarrow> 'l controller" where
  "notify nozzle c =
     (case threads c nozzle of
        Some w \<Rightarrow> if pc w = Waiting then c\<lparr>threads := (threads c)(nozzle \<mapsto> w\<lparr>pc := Ready\<rparr>)\<rparr> else c
      | None \<Rightarrow> c)"

text \<open>
  How a call of \<open>receive\<close> ends: it returns, it raises, or it never gets the lock of the
  condition (a dead thread holds it).
\<close>

datatype outcome = Returned | Raised error | Blocked

definition receive ::
  "nozzle \<Rightarrow> real \<Rightarrow> 'l \<Rightarrow> real \<Rightarrow> real \<Rightarrow> 'l controller \<Rightarrow> outcome \<times> 'l controller" where
  "receive nozzle timeStamp location delay duration c =
     (let inputQMessage = SprayJob nozzle timeStamp delay duration location in
      case nozzleQueueDict c nozzle of
        None \<Rightarrow> (Raised KeyError, c)
      | Some inputQ \<Rightarrow>
          (case nozzleconditionDict c nozzle of
             None \<Rightarrow> (Raised KeyError, c)
           | Some locked \<Rightarrow>
               if locked then (Blocked, c)
               else
                 (let c1 = c\<lparr>nozzleQueueDict :=
                              (nozzleQueueDict c)(nozzle \<mapsto> deque_append inputQ inputQMessage)\<rparr>;
                      c2 = notify nozzle c1;
                      line = Audit nozzle timeStamp delay duration location
                  in (Returned, snd (log_line line c2)))))"

text \<open>\<open>time.sleep(secs)\<close> in the thread of \<open>nozzle\<close>: a negative argument raises ValueError.\<close>

definition time_sleep :: "nozzle \<Rightarrow> real \<Rightarrow> 'l controller stmt" where
  "time_sleep nozzle secs c =
     (if secs < 0 then (Some ValueError, c)
      else (case threads c nozzle of
              None \<Rightarrow> (None, c)
            | Some w \<Rightarrow>
                (None, c\<lparr>threads := (threads c)(nozzle \<mapsto> w\<lparr>slept := slept w @ [secs]\<rparr>)\<rparr>)))"

definition set_nozzleOn :: "nozzle \<Rightarrow> bool \<Rightarrow> 'l controller stmt" where
  "set_nozzleOn nozzle b c =
     (case threads c nozzle of
        None \<Rightarrow> (None, c)
      | Some w \<Rightarrow> (None, c\<lparr>threads := (threads c)(nozzle \<mapsto> w\<lparr>nozzleOn := b\<rparr>)\<rparr>))"

definition get_nozzleOn :: "nozzle \<Rightarrow> 'l controller \<Rightarrow> bool" where
  "get_nozzleOn nozzle c = (case threads c nozzle of Some w \<Rightarrow> nozzleOn w | None \<Rightarrow> False)"

text \<open>\<open>self.solenoid.relay_on(nozzle)\<close> and \<open>self.solenoid.relay_off(nozzle)\<close>\<close>

definition on_solenoid :: "relayControl stmt \<Rightarrow> 'l controller stmt" where
  "on_solenoid f c = (case f (solenoid c) of (e, rc) \<Rightarrow> (e, c\<lparr>solenoid := rc\<rparr>))"

text \<open>
  Lines 153 to 176 of \<open>consumer\<close>: one popped job, with the lock released. \<open>now\<close> is
  the value \<open>time.time()\<close> returns.
\<close>

definition consumer_job :: "nozzle \<Rightarrow> real \<Rightarrow> 'l sprayJob \<Rightarrow> 'l controller stmt" where
  "consumer_job nozzle now sprayJob c =
     (let timeDiff = now - job_timeStamp sprayJob;
          onDur = (if job_duration sprayJob - timeDiff \<le> 0 then 0
                   else job_duration sprayJob - timeDiff)
      in seq
           (if \<not> get_nozzleOn nozzle c then
              (let delay = (if onDur = 0 then 0 else job_delay sprayJob - timeDiff)
               in seq (try_except_ValueError (time_sleep nozzle delay) (time_sleep nozzle 0))
                   (seq (on_solenoid (relay_on nozzle)) (set_nozzleOn nozzle True)))
            else skip)
           (try_except_ValueError
              (seq (time_sleep nozzle onDur) (log_line (Info onDur nozzle)))
              (seq (time_sleep nozzle 0) (log_line (Error onDur nozzle))))
           c)"

text \<open>
  The critical section of \<open>consumer\<close>, entered with the lock taken: the test of
  \<open>while nozzleQueue\<close>. With a job queued, \<open>popleft\<close> and release; with none,
  \<open>relay_off\<close>, \<open>nozzleOn = False\<close> and \<open>wait()\<close>, which releases the lock.
  An exception of \<open>relay_off\<close> ends the thread with the lock held.
\<close>

definition consumer_head :: "nozzle \<Rightarrow> 'l worker \<Rightarrow> 'l controller \<Rightarrow> 'l controller" where
  "consumer_head nozzle w c =
     (case nozzleQueueDict c nozzle of
        None \<Rightarrow> c\<lparr>threads := (threads c)(nozzle \<mapsto> w\<lparr>pc := Dead KeyError\<rparr>)\<rparr>
      | Some nozzleQueue \<Rightarrow>
          (case nozzleQueue of
             sprayJob # rest \<Rightarrow>
               c\<lparr>nozzleQueueDict := (nozzleQueueDict c)(nozzle \<mapsto> rest),
                 nozzleconditionDict := (nozzleconditionDict c)(nozzle \<mapsto> False),
                 threads := (threads c)(nozzle \<mapsto>
                    w\<lparr>pc := Working sprayJob, popped := popped w @ [sprayJob]\<rparr>)\<rparr>
           | [] \<Rightarrow>
               (case relay_off nozzle (solenoid c) of
                  (Some e, rc) \<Rightarrow>
                    c\<lparr>solenoid := rc,
                      nozzleconditionDict := (nozzleconditionDict c)(nozzle \<mapsto> True),
                      threads := (threads c)(nozzle \<mapsto> w\<lparr>pc := Dead e\<rparr>)\<rparr>
                | (None, rc) \<Rightarrow>
                    c\<lparr>solenoid := rc,
                      nozzleconditionDict := (nozzleconditionDict c)(nozzle \<mapsto> False),
                      threads := (threads c)(nozzle \<mapsto> w\<lparr>nozzleOn := False, pc := Waiting\<rparr>)\<rparr>)))"

text \<open>
  One step of the thread of \<open>nozzle\<close>: from \<open>Ready\<close> the critical section, from
  \<open>Working\<close> the job and then back to \<open>Ready\<close> (or dead, if the job raised). A parked
  or dead thread does nothing; neither does a thread that was never started. The job is
  one step: while the thread sleeps, \<open>receive\<close> only appends to the queue and to the log
  and notifies, none of which the job reads, so a call of \<open>receive\<close> during the job
  acts as one before it or after it. The outer loop never ends (\<open>self.running\<close> is never
  set to False): a thread is a sequence of steps with no last one.
\<close>

definition set_pc :: "nozzle \<Rightarrow> 'l pc \<Rightarrow> 'l controller \<Rightarrow> 'l controller" where
  "set_pc nozzle p c =
     (case threads c nozzle of
        None \<Rightarrow> c
      | Some w \<Rightarrow> c\<lparr>threads := (threads c)(nozzle \<mapsto> w\<lparr>pc := p\<rparr>)\<rparr>)"

definition consumer :: "nozzle \<Rightarrow> real \<Rightarrow> 'l controller \<Rightarrow> 'l controller" where
  "consumer nozzle now c =
     (case threads c nozzle of
        None \<Rightarrow> c
      | Some w \<Rightarrow>
          (case pc w of
             Ready \<Rightarrow> consumer_head nozzle w c
           | Working sprayJob \<Rightarrow>
               (case consumer_job nozzle now sprayJob c of
                  (None, c') \<Rightarrow> set_pc nozzle Ready c'
                | (Some e, c') \<Rightarrow> set_pc nozzle (Dead e) c')
           | Waiting \<Rightarrow> c
           | Dead e \<Rightarrow> c))"

subsection \<open>Runs of the whole controller\<close>

text \<open>
  An event is a call of \<open>receive\<close> by the detection loop, with its five arguments, or
  one step of a consumer thread, with the clock value it reads. A schedule is a list of
  events; every interleaving of the threads is some schedule.
\<close>

datatype 'l event =
  Receive nozzle real 'l real real
| Run nozzle real

fun step :: "'l event \<Rightarrow> 'l controller \<Rightarrow> 'l controller" where
  "step (Receive nozzle timeStamp location delay duration) c =
     snd (receive nozzle timeStamp location delay duration c)"
| "step (Run nozzle now) c = consumer nozzle now c"

definition exec :: "'l event list \<Rightarrow> 'l controller \<Rightarrow> 'l controller" where
  "exec evs c = foldl (\<lambda>c e. step e c) c evs"

text \<open>The relay calls made under one solenoid number.\<close>

fun call_nozzle :: "call \<Rightarrow> nozzle" where
  "call_nozzle (On n p) = n"
| "call_nozzle (Off n p) = n"

definition calls_of :: "nozzle \<Rightarrow> 'l controller \<Rightarrow> call list" where
  "calls_of nozzle c = filter (\<lambda>k. call_nozzle k = nozzle) (calls (solenoid c))"

text \<open>The jobs a schedule passes to \<open>receive\<close> for one nozzle, in order.\<close>

fun received :: "nozzle \<Rightarrow> 'l event list \<Rightarrow> 'l sprayJob list" where
  "received n [] = []"
| "received n (Receive nozzle timeStamp location delay duration # evs) =
     (if nozzle = n then [SprayJob nozzle timeStamp delay duration location] else [])
     @ received n evs"
| "received n (Run nozzle now # evs) = received n evs"


text \<open>The call of \<open>receive\<close> that enqueues a given job.\<close>

definition receive_job :: "'l sprayJob \<Rightarrow> 'l event" where
  "receive_job j =
     Receive (job_nozzle j) (job_timeStamp j) (job_location j) (job_delay j) (job_duration j)"

text \<open>
  What a schedule does to the queue of one nozzle, read off the run from state \<open>c\<close>:
  \<open>enqueued\<close> are the jobs of the calls of \<open>receive\<close> that returned, in order, and
  \<open>evicted\<close> the jobs that \<open>deque.append\<close> dropped from the left of a full queue
  (\<open>deque_dropped\<close>) in those calls.
\<close>

definition deque_dropped :: "'a list \<Rightarrow> 'a \<Rightarrow> 'a list" where
  "deque_dropped q x = (let q' = q @ [x] in if length q' > maxlen then [hd q'] else [])"

fun enqueued_by :: "nozzle \<Rightarrow> 'l event \<Rightarrow> 'l controller \<Rightarrow> 'l sprayJob list" where
  "enqueued_by n (Receive nozzle timeStamp location delay duration) c =
     (if nozzle = n \<and> fst (receive nozzle timeStamp location delay duration c) = Returned
      then [SprayJob nozzle timeStamp delay duration location] else [])"
| "enqueued_by n (Run nozzle now) c = []"

fun evicted_by :: "nozzle \<Rightarrow> 'l event \<Rightarrow> 'l controller \<Rightarrow> 'l sprayJob list" where
  "evicted_by n (Receive nozzle timeStamp location delay duration) c =
     (if nozzle = n \<and> fst (receive nozzle timeStamp location delay duration c) = Returned
      then (case nozzleQueueDict c n of
              Some q \<Rightarrow> deque_dropped q (SprayJob nozzle timeStamp delay duration location)
            | None \<Rightarrow> [])
      else [])"
| "evicted_by n (Run nozzle now) c = []"

fun enqueued :: "nozzle \<Rightarrow> 'l event list \<Rightarrow> 'l controller \<Rightarrow> 'l sprayJob list" where
  "enqueued n [] c = []"
| "enqueued n (e # evs) c = enqueued_by n e c @ enqueued n evs (step e c)"

fun evicted :: "nozzle \<Rightarrow> 'l event list \<Rightarrow> 'l controller \<Rightarrow> 'l sprayJob list" where
  "evicted n [] c = []"
| "evicted n (e # evs) c = evicted_by n e c @ evicted n evs (step e c)"

text \<open>Whether an event is a step of the thread of a nozzle.\<close>

fun is_run :: "nozzle \<Rightarrow> 'l event \<Rightarrow> bool" where
  "is_run n (Run nozzle now) = (nozzle = n)"
| "is_run n (Receive nozzle timeStamp location delay duration) = False"

subsection \<open>Histories of relay calls\<close>

text \<open>
  \<open>toggles n p k\<close> is \<open>k\<close> activations of the relay of nozzle \<open>n\<close>: \<open>on()\<close> then
  \<open>off()\<close>, \<open>k\<close> times. A history is \<open>toggled\<close> if it is such a list, after at most one
  \<open>off()\<close> at the start and before one last \<open>on()\<close> if the nozzle is on now.
  \<open>toggle_inv\<close> is what holds of the thread of a nozzle with a relay in every state the
  controller reaches.
\<close>

definition toggles :: "nozzle \<Rightarrow> pin \<Rightarrow> nat \<Rightarrow> call list" where
  "toggles n p k = concat (replicate k [On n p, Off n p])"

definition toggled :: "nozzle \<Rightarrow> pin \<Rightarrow> bool \<Rightarrow> call list \<Rightarrow> bool" where
  "toggled n p on cs \<longleftrightarrow>
     (\<exists>k first. (first = [] \<or> first = [Off n p]) \<and>
        cs = first @ toggles n p k @ (if on then [On n p] else []))"

definition toggle_inv :: "nozzle \<Rightarrow> pin \<Rightarrow> (nozzle \<times> pin) list \<Rightarrow> 'l controller \<Rightarrow> bool" where
  "toggle_inv n p d s \<longleftrightarrow>
     solenoidDict (solenoid s) = d \<and> nozzleconditionDict s n = Some False \<and>
     (\<exists>w q. threads s n = Some w \<and> nozzleQueueDict s n = Some q \<and>
        (\<forall>e. pc w \<noteq> Dead e) \<and>
        toggled n p (nozzleOn w) (calls_of n s) \<and>
        (pc w = Ready \<and> \<not> nozzleOn w \<longrightarrow> calls_of n s = [] \<or> q \<noteq> []) \<and>
        (pc w = Waiting \<longrightarrow> \<not> nozzleOn w \<and> q = []))"

subsection \<open>Example states\<close>

text \<open>
  A controller for one nozzle on board pin 13. In \<open>late_job\<close> a job detected at time 0
  with delay 0 and duration 1 has been received and popped by the thread; the thread is
  about to process it.
\<close>

definition one_nozzle :: "nat controller" where
  "one_nozzle = Controller [(0, 13)]"

definition late_job :: "nat controller" where
  "late_job = exec [Receive 0 0 0 0 1, Run 0 0] one_nozzle"

text \<open>\<open>parked\<close>: the thread has run once on its empty queue and waits.\<close>

definition parked :: "nat controller" where
  "parked = exec [Run 0 0] one_nozzle"

text \<open>
  \<open>two_jobs\<close>: the thread parks; a job of duration 2 detected at time 1 arrives and is
  popped; a second one, detected at 1.1, arrives while the first is processed; the thread
  processes the first at 1.2, pops and processes the second at 3, and finds the queue
  empty at 3.1.
\<close>

definition two_jobs :: "nat event list" where
  "two_jobs =
     [Run 0 0, Receive 0 1 0 0 2, Run 0 1, Receive 0 (11/10) 0 0 2, Run 0 (12/10),
      Run 0 3, Run 0 3, Run 0 (31/10)]"

definition six_jobs :: "nat sprayJob list" where
  "six_jobs =
     [SprayJob 0 1 0 1 0, SprayJob 0 2 0 1 0, SprayJob 0 3 0 1 0,
      SprayJob 0 4 0 1 0, SprayJob 0 5 0 1 0, SprayJob 0 6 0 1 0]"

text \<open>
  \<open>dead_locked\<close>: the only key of the dictionary is 1, so the queue and the thread are
  those of number 0, which has no relay; the thread has run once, \<open>relay_off(0)\<close> has
  raised KeyError inside the critical section, and the lock is held for good.
\<close>

definition dead_locked :: "nat controller" where
  "dead_locked = exec [Run 0 0] (Controller [(1, 13)])"

text \<open>\<open>overflow\<close>: the thread parks, then the six jobs arrive with no thread step between.\<close>

definition overflow :: "nat event list" where
  "overflow = Run 0 0 # map receive_job six_jobs"

lemmas model_defs =
  exec_def Controller_def RelayControl_def receive_def notify_def log_line_def
  deque_append_def maxlen_def consumer_def consumer_head_def relay_off_def relay_on_def
  consumer_job_def Let_def seq_def skip_def get_nozzleOn_def on_solenoid_def
  set_nozzleOn_def set_pc_def try_except_ValueError_def time_sleep_def

section \<open>One job\<close>

text \<open>
  What lines 153 to 176 do, in closed form: with the nozzle on; with the nozzle off and a
  relay under its number; with the nozzle off and no relay under its number.
\<close>

lemma consumer_job_on:
  assumes "threads c n = Some w" "nozzleOn w"
  shows "consumer_job n now j c =
     (None, c\<lparr>threads := (threads c)(n \<mapsto>
                   w\<lparr>slept := slept w @ [max 0 (job_duration j - (now - job_timeStamp j))]\<rparr>),
              logger := logger c @ [Info (max 0 (job_duration j - (now - job_timeStamp j))) n]\<rparr>)"
  using assms
  by (simp add: consumer_job_def Let_def seq_def skip_def get_nozzleOn_def
      try_except_ValueError_def time_sleep_def log_line_def max_def)

lemma consumer_job_off:
  assumes "threads c n = Some w" "\<not> nozzleOn w"
    and "map_of (solenoidDict (solenoid c)) n = Some p"
  shows "consumer_job n now j c =
     (let onDur = max 0 (job_duration j - (now - job_timeStamp j));
          delay = (if onDur = 0 then 0 else max 0 (job_delay j - (now - job_timeStamp j)))
      in (None, c\<lparr>solenoid := (solenoid c)\<lparr>calls := calls (solenoid c) @ [On n p]\<rparr>,
              threads := (threads c)(n \<mapsto>
                 w\<lparr>nozzleOn := True, slept := slept w @ [delay, onDur]\<rparr>),
              logger := logger c @ [Info onDur n]\<rparr>))"
  using assms
  by (simp add: consumer_job_def Let_def seq_def skip_def get_nozzleOn_def on_solenoid_def
      relay_on_def set_nozzleOn_def try_except_ValueError_def time_sleep_def log_line_def max_def)

lemma consumer_job_nokey:
  assumes "threads c n = Some w" "\<not> nozzleOn w"
    and "map_of (solenoidDict (solenoid c)) n = None"
  shows "consumer_job n now j c =
     (let onDur = max 0 (job_duration j - (now - job_timeStamp j));
          delay = (if onDur = 0 then 0 else max 0 (job_delay j - (now - job_timeStamp j)))
      in (Some KeyError, c\<lparr>threads := (threads c)(n \<mapsto> w\<lparr>slept := slept w @ [delay]\<rparr>)\<rparr>))"
  using assms
  by (simp add: consumer_job_def Let_def seq_def skip_def get_nozzleOn_def on_solenoid_def
      relay_on_def set_nozzleOn_def try_except_ValueError_def time_sleep_def log_line_def max_def)

lemma consumer_Working:
  assumes "threads c n = Some w" "pc w = Working j"
  shows "consumer n now c =
     (case consumer_job n now j c of
        (None, c') \<Rightarrow> set_pc n Ready c'
      | (Some e, c') \<Rightarrow> set_pc n (Dead e) c')"
  using assms by (simp add: consumer_def)

section \<open>What a step changes and what it leaves\<close>

lemma deque_append_alt:
  "deque_append q x = (if length q < maxlen then q else tl q) @ [x]"
  by (cases q) (simp_all add: deque_append_def Let_def maxlen_def)

lemma receive_solenoid: "solenoid (snd (receive m t l d du c)) = solenoid c"
  by (simp add: receive_def notify_def log_line_def Let_def split: option.splits)

lemma receive_condition: "nozzleconditionDict (snd (receive m t l d du c)) = nozzleconditionDict c"
  by (simp add: receive_def notify_def log_line_def Let_def split: option.splits)

lemma receive_queue_other:
  "m \<noteq> n \<Longrightarrow> nozzleQueueDict (snd (receive m t l d du c)) n = nozzleQueueDict c n"
  by (simp add: receive_def notify_def log_line_def Let_def split: option.splits)

lemma receive_threads_other:
  "m \<noteq> n \<Longrightarrow> threads (snd (receive m t l d du c)) n = threads c n"
  by (simp add: receive_def notify_def log_line_def Let_def split: option.splits)

lemma receive_queue_own:
  "nozzleQueueDict (snd (receive n t l d du c)) n =
     (case nozzleQueueDict c n of
        None \<Rightarrow> None
      | Some q \<Rightarrow> if nozzleconditionDict c n = Some False
                  then Some (deque_append q (SprayJob n t d du l)) else Some q)"
  by (simp add: receive_def notify_def log_line_def Let_def split: option.splits)

lemma receive_threads_own:
  "threads (snd (receive n t l d du c)) n =
     (case threads c n of
        None \<Rightarrow> None
      | Some w \<Rightarrow> if fst (receive n t l d du c) = Returned \<and> pc w = Waiting
                  then Some (w\<lparr>pc := Ready\<rparr>) else Some w)"
  by (simp add: receive_def notify_def log_line_def Let_def split: option.splits)

lemma receive_returned:
  "fst (receive n t l d du c) = Returned \<longleftrightarrow>
     nozzleQueueDict c n \<noteq> None \<and> nozzleconditionDict c n = Some False"
  by (simp add: receive_def notify_def log_line_def Let_def split: option.splits)

lemma consumer_job_frame:
  "nozzleQueueDict (snd (consumer_job m now j c)) = nozzleQueueDict c"
  "nozzleconditionDict (snd (consumer_job m now j c)) = nozzleconditionDict c"
  "solenoidDict (solenoid (snd (consumer_job m now j c))) = solenoidDict (solenoid c)"
  "m \<noteq> n \<Longrightarrow> threads (snd (consumer_job m now j c)) n = threads c n"
  "m \<noteq> n \<Longrightarrow> calls_of n (snd (consumer_job m now j c)) = calls_of n c"
  by (simp_all add: consumer_job_def Let_def seq_def skip_def get_nozzleOn_def on_solenoid_def calls_of_def
      relay_on_def set_nozzleOn_def try_except_ValueError_def time_sleep_def log_line_def
      split: option.splits)

lemma set_pc_frame:
  "nozzleQueueDict (set_pc m p c) = nozzleQueueDict c"
  "nozzleconditionDict (set_pc m p c) = nozzleconditionDict c"
  "solenoid (set_pc m p c) = solenoid c"
  "logger (set_pc m p c) = logger c"
  "m \<noteq> n \<Longrightarrow> threads (set_pc m p c) n = threads c n"
  "calls_of n (set_pc m p c) = calls_of n c"
  by (simp_all add: set_pc_def calls_of_def split: option.splits)

lemma consumer_Working_snd:
  assumes "threads c n = Some w" "pc w = Working j"
  shows "consumer n now c =
     set_pc n (case fst (consumer_job n now j c) of None \<Rightarrow> Ready | Some e \<Rightarrow> Dead e)
       (snd (consumer_job n now j c))"
  using assms by (simp add: consumer_def split: prod.splits option.splits)

lemma consumer_Ready:
  assumes "threads c n = Some w" "pc w = Ready"
  shows "consumer n now c = consumer_head n w c"
  using assms by (simp add: consumer_def)

lemma consumer_idle:
  assumes "threads c n = None \<or> (\<exists>w. threads c n = Some w \<and> (pc w = Waiting \<or> (\<exists>e. pc w = Dead e)))"
  shows "consumer n now c = c"
  using assms by (auto simp add: consumer_def)

lemma consumer_head_frame:
  "solenoidDict (solenoid (consumer_head m w c)) = solenoidDict (solenoid c)"
  "m \<noteq> n \<Longrightarrow> nozzleQueueDict (consumer_head m w c) n = nozzleQueueDict c n"
  "m \<noteq> n \<Longrightarrow> threads (consumer_head m w c) n = threads c n"
  "m \<noteq> n \<Longrightarrow> nozzleconditionDict (consumer_head m w c) n = nozzleconditionDict c n"
  "m \<noteq> n \<Longrightarrow> calls_of n (consumer_head m w c) = calls_of n c"
  by (simp_all add: consumer_head_def relay_off_def calls_of_def
      split: option.splits list.splits)

lemma consumer_frame:
  "solenoidDict (solenoid (consumer m now c)) = solenoidDict (solenoid c)"
  "m \<noteq> n \<Longrightarrow> nozzleQueueDict (consumer m now c) n = nozzleQueueDict c n"
  "m \<noteq> n \<Longrightarrow> threads (consumer m now c) n = threads c n"
  "m \<noteq> n \<Longrightarrow> calls_of n (consumer m now c) = calls_of n c"
  "m \<noteq> n \<Longrightarrow> nozzleconditionDict (consumer m now c) n = nozzleconditionDict c n"
proof -
  consider "threads c m = None"
    | w where "threads c m = Some w" "pc w = Ready"
    | w j where "threads c m = Some w" "pc w = Working j"
    | w where "threads c m = Some w" "pc w = Waiting \<or> (\<exists>e. pc w = Dead e)"
    by (cases "threads c m"; cases "pc (the (threads c m))") auto
  note cs = this
  show "solenoidDict (solenoid (consumer m now c)) = solenoidDict (solenoid c)"
    using cs by cases (simp_all add: consumer_idle consumer_Ready consumer_Working_snd
        consumer_head_frame set_pc_frame consumer_job_frame)
  show "m \<noteq> n \<Longrightarrow> nozzleQueueDict (consumer m now c) n = nozzleQueueDict c n"
    using cs by cases (simp_all add: consumer_idle consumer_Ready consumer_Working_snd
        consumer_head_frame set_pc_frame consumer_job_frame)
  show "m \<noteq> n \<Longrightarrow> threads (consumer m now c) n = threads c n"
    using cs by cases (simp_all add: consumer_idle consumer_Ready consumer_Working_snd
        consumer_head_frame set_pc_frame consumer_job_frame)
  show "m \<noteq> n \<Longrightarrow> calls_of n (consumer m now c) = calls_of n c"
    using cs by cases (simp_all add: consumer_idle consumer_Ready consumer_Working_snd
        consumer_head_frame set_pc_frame consumer_job_frame)
  show "m \<noteq> n \<Longrightarrow> nozzleconditionDict (consumer m now c) n = nozzleconditionDict c n"
    using cs by cases (simp_all add: consumer_idle consumer_Ready consumer_Working_snd
        consumer_head_frame set_pc_frame consumer_job_frame)
qed

lemma exec_Nil: "exec [] c = c"
  by (simp add: exec_def)

lemma exec_snoc: "exec (evs @ [e]) c = step e (exec evs c)"
  by (simp add: exec_def)

lemma exec_Cons: "exec (e # evs) c = exec evs (step e c)"
  by (simp add: exec_def)

lemma received_append: "received n (evs @ evs') = received n evs @ received n evs'"
  by (induction n evs rule: received.induct) simp_all

lemma Controller_fields:
  "solenoidDict (solenoid (Controller d :: 'l controller)) = d"
  "calls (solenoid (Controller d :: 'l controller)) = []"
  "logger (Controller d :: 'l controller) = []"
  "0 \<le> n \<Longrightarrow> n < int (length d) \<Longrightarrow> nozzleQueueDict (Controller d :: 'l controller) n = Some []"
  "0 \<le> n \<Longrightarrow> n < int (length d) \<Longrightarrow> nozzleconditionDict (Controller d :: 'l controller) n = Some False"
  "0 \<le> n \<Longrightarrow> n < int (length d) \<Longrightarrow>
     threads (Controller d :: 'l controller) n = Some \<lparr>pc = Ready, nozzleOn = False, popped = [], slept = []\<rparr>"
  by (simp_all add: Controller_def RelayControl_def)

lemma consumer_head_pop:
  assumes "nozzleQueueDict c n = Some (j # rest)"
  shows "threads (consumer_head n w c) n = Some (w\<lparr>pc := Working j, popped := popped w @ [j]\<rparr>)"
    and "nozzleQueueDict (consumer_head n w c) n = Some rest"
    and "nozzleconditionDict (consumer_head n w c) n = Some False"
    and "calls_of m (consumer_head n w c) = calls_of m c"
  using assms by (simp_all add: consumer_head_def calls_of_def)

lemma consumer_head_drain:
  assumes "nozzleQueueDict c n = Some []" "map_of (solenoidDict (solenoid c)) n = Some p"
  shows "threads (consumer_head n w c) n = Some (w\<lparr>pc := Waiting, nozzleOn := False\<rparr>)"
    and "nozzleQueueDict (consumer_head n w c) n = Some []"
    and "nozzleconditionDict (consumer_head n w c) n = Some False"
    and "calls_of n (consumer_head n w c) = calls_of n c @ [Off n p]"
  using assms by (simp_all add: consumer_head_def calls_of_def relay_off_def)

lemma consumer_head_dead:
  assumes "nozzleQueueDict c n = Some []" "map_of (solenoidDict (solenoid c)) n = None"
  shows "threads (consumer_head n w c) n = Some (w\<lparr>pc := Dead KeyError\<rparr>)"
    and "nozzleQueueDict (consumer_head n w c) n = Some []"
    and "nozzleconditionDict (consumer_head n w c) n = Some True"
    and "calls_of m (consumer_head n w c) = calls_of m c"
  using assms by (simp_all add: consumer_head_def calls_of_def relay_off_def)

lemma consumer_Working_on:
  assumes "threads c n = Some w" "pc w = Working j" "nozzleOn w"
  shows "threads (consumer n now c) n =
           Some (w\<lparr>pc := Ready, slept := slept w @ [max 0 (job_duration j - (now - job_timeStamp j))]\<rparr>)"
    and "nozzleQueueDict (consumer n now c) = nozzleQueueDict c"
    and "nozzleconditionDict (consumer n now c) = nozzleconditionDict c"
    and "calls_of m (consumer n now c) = calls_of m c"
  using assms by (simp_all add: consumer_Working consumer_job_on set_pc_def calls_of_def)

lemma consumer_Working_off:
  assumes "threads c n = Some w" "pc w = Working j" "\<not> nozzleOn w"
    and "map_of (solenoidDict (solenoid c)) n = Some p"
  shows "threads (consumer n now c) n =
           Some (w\<lparr>pc := Ready, nozzleOn := True, slept := slept w @
             [if max 0 (job_duration j - (now - job_timeStamp j)) = 0 then 0
              else max 0 (job_delay j - (now - job_timeStamp j)),
              max 0 (job_duration j - (now - job_timeStamp j))]\<rparr>)"
    and "nozzleQueueDict (consumer n now c) = nozzleQueueDict c"
    and "nozzleconditionDict (consumer n now c) = nozzleconditionDict c"
    and "calls_of n (consumer n now c) = calls_of n c @ [On n p]"
  using assms by (simp_all add: consumer_Working consumer_job_off set_pc_def calls_of_def Let_def)

lemma consumer_Working_nokey:
  assumes "threads c n = Some w" "pc w = Working j" "\<not> nozzleOn w"
    and "map_of (solenoidDict (solenoid c)) n = None"
  shows "threads (consumer n now c) n =
           Some (w\<lparr>pc := Dead KeyError, slept := slept w @
             [if max 0 (job_duration j - (now - job_timeStamp j)) = 0 then 0
              else max 0 (job_delay j - (now - job_timeStamp j))]\<rparr>)"
    and "nozzleQueueDict (consumer n now c) = nozzleQueueDict c"
    and "nozzleconditionDict (consumer n now c) = nozzleconditionDict c"
    and "calls_of m (consumer n now c) = calls_of m c"
  using assms by (simp_all add: consumer_Working consumer_job_nokey set_pc_def calls_of_def Let_def)

section \<open>Invariants of the runs\<close>

lemma toggles_Suc: "toggles n p k @ [On n p, Off n p] = toggles n p (Suc k)"
  unfolding toggles_def
  by (induction k) simp_all

lemma toggled_Nil: "toggled n p False []"
  unfolding toggled_def by (rule exI [of _ 0]) (simp add: toggles_def)

lemma toggled_first_Off: "toggled n p False [Off n p]"
  unfolding toggled_def by (rule exI [of _ 0]) (simp add: toggles_def)

lemma toggled_On: "toggled n p False cs \<Longrightarrow> toggled n p True (cs @ [On n p])"
  unfolding toggled_def by auto

lemma toggled_Off:
  assumes "toggled n p True cs"
  shows "toggled n p False (cs @ [Off n p])"
proof -
  from assms obtain k first where
    f: "first = [] \<or> first = [Off n p]" and cs: "cs = first @ toggles n p k @ [On n p]"
    unfolding toggled_def by auto
  have "cs @ [Off n p] = first @ toggles n p (Suc k) @ []"
    using cs by (simp add: toggles_Suc [symmetric])
  with f show ?thesis unfolding toggled_def by (metis (full_types))
qed

lemma deque_append_nonempty: "deque_append q x \<noteq> []"
  by (simp add: deque_append_alt)

lemma toggle_inv_init:
  assumes "0 \<le> n" "n < int (length d)"
  shows "toggle_inv n p d (Controller d)"
  unfolding toggle_inv_def using assms
  by (simp add: Controller_fields calls_of_def toggled_Nil)

lemma receive_calls_of: "calls_of n (snd (receive m t l d du c)) = calls_of n c"
  by (simp add: calls_of_def receive_solenoid)

lemma toggle_inv_receive:
  assumes "toggle_inv n p d s"
  shows "toggle_inv n p d (snd (receive m t l dl du s))"
proof (cases "m = n")
  case False
  with assms show ?thesis
    unfolding toggle_inv_def
    by (simp add: receive_solenoid receive_condition receive_queue_other
        receive_threads_other receive_calls_of)
next
  case True
  from assms obtain w q where
    wq: "threads s n = Some w" "nozzleQueueDict s n = Some q"
    and lock: "nozzleconditionDict s n = Some False"
    unfolding toggle_inv_def by auto
  have ret: "fst (receive n t l dl du s) = Returned"
    using wq lock by (simp add: receive_returned)
  show ?thesis
    using assms wq lock ret True
    unfolding toggle_inv_def
    by (auto simp add: receive_solenoid receive_condition receive_queue_own
        receive_threads_own receive_calls_of deque_append_nonempty)
qed

lemma toggle_inv_consumer:
  assumes inv: "toggle_inv n p d s" and rel: "map_of d n = Some p"
  shows "toggle_inv n p d (consumer m now s)"
proof (cases "m = n")
  case False
  with inv show ?thesis
    unfolding toggle_inv_def
    by (simp add: consumer_frame)
next
  case True
  from inv obtain w q where
    sd: "solenoidDict (solenoid s) = d"
    and lock: "nozzleconditionDict s n = Some False"
    and w: "threads s n = Some w" and q: "nozzleQueueDict s n = Some q"
    and alive: "\<And>e. pc w \<noteq> Dead e"
    and shape: "toggled n p (nozzleOn w) (calls_of n s)"
    and ready: "pc w = Ready \<and> \<not> nozzleOn w \<longrightarrow> calls_of n s = [] \<or> q \<noteq> []"
    and waiting: "pc w = Waiting \<longrightarrow> \<not> nozzleOn w"
    unfolding toggle_inv_def by blast
  have rel': "map_of (solenoidDict (solenoid s)) n = Some p"
    using sd rel by simp
  have sd': "solenoidDict (solenoid (consumer n now s)) = d"
    using sd by (simp add: consumer_frame)
  show ?thesis
  proof (cases "pc w")
    case Ready
    show ?thesis
    proof (cases q)
      case Nil
      note hd = consumer_head_drain [OF q [unfolded Nil] rel', where w = w]
      have "toggled n p False (calls_of n s @ [Off n p])"
      proof (cases "nozzleOn w")
        case True
        with shape show ?thesis by (simp add: toggled_Off)
      next
        case False
        then have "calls_of n s = []" using ready Ready Nil by simp
        then show ?thesis by (simp add: toggled_first_Off)
      qed
      then show ?thesis
        unfolding toggle_inv_def True
        using sd' w Ready hd
        by (simp add: consumer_Ready True [symmetric])
    next
      case (Cons j rest)
      note hp = consumer_head_pop [OF q [unfolded Cons], where w = w]
      show ?thesis
        unfolding toggle_inv_def True
        using sd' w Ready hp shape
        by (simp add: consumer_Ready True [symmetric])
    qed
  next
    case (Working j)
    show ?thesis
    proof (cases "nozzleOn w")
      case on: True
      note st = consumer_Working_on [OF w Working on, where now = now]
      show ?thesis
        unfolding toggle_inv_def True
        using sd' st lock q shape on
        by (simp add: True [symmetric])
    next
      case off: False
      note st = consumer_Working_off [OF w Working off rel', where now = now]
      show ?thesis
        unfolding toggle_inv_def True
        using sd' st lock q shape off
        by (simp add: True [symmetric] toggled_On)
    qed
  next
    case Waiting
    then have "consumer n now s = s" using w by (simp add: consumer_idle)
    with inv True show ?thesis by simp
  next
    case (Dead e)
    with alive [of e] show ?thesis by simp
  qed
qed

lemma toggle_inv_step:
  assumes "toggle_inv n p d s" "map_of d n = Some p"
  shows "toggle_inv n p d (step e s)"
  using assms by (cases e) (simp_all add: toggle_inv_receive toggle_inv_consumer)

lemma toggle_inv_exec:
  assumes "0 \<le> n" "n < int (length d)" "map_of d n = Some p"
  shows "toggle_inv n p d (exec evs (Controller d))"
  by (induction evs rule: rev_induct)
    (simp_all add: exec_Nil exec_snoc toggle_inv_init toggle_inv_step assms)

lemma consumer_head_noqueue:
  assumes "nozzleQueueDict c n = None"
  shows "nozzleQueueDict (consumer_head n w c) n = None"
  using assms by (simp add: consumer_head_def)

lemma consumer_popped_queue:
  assumes w: "threads c n = Some w" and q: "nozzleQueueDict c n = Some q"
  shows "\<exists>w' q'. threads (consumer n now c) n = Some w' \<and>
           nozzleQueueDict (consumer n now c) n = Some q' \<and>
           popped w' @ q' = popped w @ q \<and> length q' \<le> length q \<and>
           (\<forall>j. pc w' = Working j \<longrightarrow>
              (pc w = Working j \<and> popped w' = popped w) \<or> (popped w' = popped w @ [j]))"
proof (cases "pc w")
  case Ready
  show ?thesis
  proof (cases q)
    case Nil
    show ?thesis
    proof (cases "map_of (solenoidDict (solenoid c)) n")
      case None
      from consumer_head_dead [OF q [unfolded Nil] None, where w = w] w Ready Nil
      show ?thesis by (simp add: consumer_Ready)
    next
      case (Some p)
      from consumer_head_drain [OF q [unfolded Nil] Some, where w = w] w Ready Nil
      show ?thesis by (simp add: consumer_Ready)
    qed
  next
    case (Cons j rest)
    from consumer_head_pop [OF q [unfolded Cons], where w = w] w Ready Cons
    show ?thesis by (simp add: consumer_Ready)
  qed
next
  case (Working j)
  show ?thesis
  proof (cases "nozzleOn w")
    case True
    from consumer_Working_on [OF w Working True, where now = now] q Working
    show ?thesis by simp
  next
    case False
    show ?thesis
    proof (cases "map_of (solenoidDict (solenoid c)) n")
      case None
      from consumer_Working_nokey [OF w Working False None, where now = now] q Working
      show ?thesis by simp
    next
      case (Some p)
      from consumer_Working_off [OF w Working False Some, where now = now] q Working
      show ?thesis by simp
    qed
  qed
next
  case Waiting
  then have "consumer n now c = c" using w by (simp add: consumer_idle)
  with w q Waiting show ?thesis by simp
next
  case (Dead e)
  then have "consumer n now c = c" using w by (simp add: consumer_idle)
  with w q Dead show ?thesis by simp
qed

lemma consumer_queue_length:
  assumes "nozzleQueueDict (consumer m now c) n = Some q'"
  shows "\<exists>q. nozzleQueueDict c n = Some q \<and> length q' \<le> length q"
proof (cases "m = n")
  case False
  with assms show ?thesis by (simp add: consumer_frame)
next
  case True
  show ?thesis
  proof (cases "threads c n")
    case None
    then have "consumer n now c = c" by (simp add: consumer_idle)
    with assms True show ?thesis by simp
  next
    case (Some w)
    show ?thesis
    proof (cases "nozzleQueueDict c n")
      case None
      have "nozzleQueueDict (consumer n now c) n = None"
      proof (cases "pc w")
        case Ready
        with Some None show ?thesis by (simp add: consumer_Ready consumer_head_noqueue)
      next
        case (Working j)
        with Some None show ?thesis
          by (simp add: consumer_Working_snd set_pc_frame consumer_job_frame)
      next
        case Waiting
        with Some None show ?thesis by (simp add: consumer_idle)
      next
        case (Dead e)
        with Some None show ?thesis by (simp add: consumer_idle)
      qed
      with assms True show ?thesis by simp
    next
      case (Some q)
      from consumer_popped_queue [OF \<open>threads c n = Some w\<close> Some, of now] assms True
      show ?thesis using Some by auto
    qed
  qed
qed

lemma receive_queue_length:
  assumes "\<And>q. nozzleQueueDict c n = Some q \<Longrightarrow> length q \<le> maxlen"
    and "nozzleQueueDict (snd (receive m t l d du c)) n = Some q'"
  shows "length q' \<le> maxlen"
proof (cases "m = n")
  case False
  with assms show ?thesis by (simp add: receive_queue_other)
next
  case True
  with assms show ?thesis
    by (auto simp add: receive_queue_own deque_append_alt maxlen_def
        split: option.splits if_splits)
qed

lemma queue_capacity_exec:
  "nozzleQueueDict (exec evs (Controller d)) n = Some q \<Longrightarrow> length q \<le> maxlen"
proof (induction evs arbitrary: q rule: rev_induct)
  case Nil
  then show ?case by (simp add: exec_Nil Controller_def split: if_splits)
next
  case (snoc e evs)
  show ?case
  proof (cases e)
    case (Receive m t l dl du)
    with snoc show ?thesis
      by (auto simp add: exec_snoc intro: receive_queue_length)
  next
    case (Run m now)
    with snoc.prems obtain q0 where
      "nozzleQueueDict (exec evs (Controller d)) n = Some q0" "length q \<le> length q0"
      by (auto simp add: exec_snoc dest: consumer_queue_length)
    with snoc.IH [of q0] show ?thesis by simp
  qed
qed

lemma subseq_deque_append:
  assumes "subseq (ps @ q) rs"
  shows "subseq (ps @ deque_append q x) (rs @ [x])"
proof -
  have "subseq (if length q < maxlen then q else tl q) q"
    by (cases q) auto
  then have "subseq (ps @ (if length q < maxlen then q else tl q)) (ps @ q)"
    by (simp only: subseq_append')
  then have "subseq (ps @ (if length q < maxlen then q else tl q)) rs"
    using assms by (rule subseq_order.trans)
  then have "subseq ((ps @ (if length q < maxlen then q else tl q)) @ [x]) (rs @ [x])"
    by (rule list_emb_append_mono) simp
  then show ?thesis by (simp add: deque_append_alt)
qed

lemma fifo_exec:
  assumes "0 \<le> n" "n < int (length d)"
  shows "\<exists>w q. threads (exec evs (Controller d)) n = Some w \<and>
           nozzleQueueDict (exec evs (Controller d)) n = Some q \<and>
           subseq (popped w @ q) (received n evs) \<and>
           (\<forall>j. pc w = Working j \<longrightarrow> popped w \<noteq> [] \<and> last (popped w) = j)"
proof (induction evs rule: rev_induct)
  case Nil
  show ?case using assms by (simp add: exec_Nil Controller_fields)
next
  case (snoc e evs)
  then obtain w q where
    w: "threads (exec evs (Controller d)) n = Some w"
    and q: "nozzleQueueDict (exec evs (Controller d)) n = Some q"
    and sub: "subseq (popped w @ q) (received n evs)"
    and cur: "\<And>j. pc w = Working j \<Longrightarrow> popped w \<noteq> [] \<and> last (popped w) = j"
    by blast
  show ?case
  proof (cases e)
    case (Receive m t l dl du)
    show ?thesis
    proof (cases "m = n")
      case False
      with Receive w q sub cur show ?thesis
        by (simp add: exec_snoc received_append receive_queue_other receive_threads_other)
    next
      case True
      have "subseq (popped w @ q) (received n evs @ [SprayJob n t dl du l])"
        using sub by (rule subseq_rev_drop_many)
      moreover have "subseq (popped w @ deque_append q (SprayJob n t dl du l))
          (received n evs @ [SprayJob n t dl du l])"
        using sub by (rule subseq_deque_append)
      ultimately show ?thesis
        using Receive True w q cur
        by (auto simp add: exec_snoc received_append receive_queue_own receive_threads_own)
    qed
  next
    case (Run m now)
    show ?thesis
    proof (cases "m = n")
      case False
      with Run w q sub cur show ?thesis
        by (simp add: exec_snoc received_append consumer_frame)
    next
      case True
      from consumer_popped_queue [OF w q, of now]
      obtain w' q' where
        "threads (consumer n now (exec evs (Controller d))) n = Some w'"
        "nozzleQueueDict (consumer n now (exec evs (Controller d))) n = Some q'"
        "popped w' @ q' = popped w @ q"
        "\<And>j. pc w' = Working j \<Longrightarrow>
           (pc w = Working j \<and> popped w' = popped w) \<or> (popped w' = popped w @ [j])"
        by blast
      with Run True sub cur show ?thesis
        by (auto simp add: exec_snoc received_append)
    qed
  qed
qed

lemma receive_job_step:
  "step (receive_job j) c =
     snd (receive (job_nozzle j) (job_timeStamp j) (job_location j) (job_delay j) (job_duration j) c)"
  by (simp add: receive_job_def)

lemma deque_append_length: "length q \<le> maxlen \<Longrightarrow> length (deque_append q x) \<le> maxlen"
  by (simp add: deque_append_alt maxlen_def)

lemma drop_oldest_step:
  assumes "length q \<le> maxlen"
  shows "drop (length (deque_append q j @ js) - maxlen) (deque_append q j @ js)
       = drop (length (q @ j # js) - maxlen) (q @ j # js)"
proof (cases "length q < maxlen")
  case True
  then show ?thesis by (simp add: deque_append_alt)
next
  case False
  with assms have len: "length q = maxlen" by simp
  then obtain a q' where q: "q = a # q'" by (cases q) (simp_all add: maxlen_def)
  have e: "deque_append q j @ js = q' @ j # js"
    using len by (simp add: deque_append_alt q)
  have l1: "length (q' @ j # js) - maxlen = length js"
    using len by (simp add: q)
  have l2: "length (q @ j # js) - maxlen = Suc (length js)"
    using len by (simp add: q)
  show ?thesis
    by (simp only: e l1 l2) (simp only: q append_Cons drop_Suc_Cons)
qed

lemma receive_jobs_queue:
  assumes "\<forall>j \<in> set js. job_nozzle j = n"
    and "nozzleQueueDict c n = Some q" and "length q \<le> maxlen"
    and "nozzleconditionDict c n = Some False"
  shows "nozzleQueueDict (exec (map receive_job js) c) n
       = Some (drop (length (q @ js) - maxlen) (q @ js))"
  using assms
proof (induction js arbitrary: c q)
  case Nil
  then show ?case by (simp add: exec_Nil)
next
  case (Cons j js)
  let ?c' = "step (receive_job j) c"
  have n: "job_nozzle j = n" using Cons.prems(1) by simp
  have j: "SprayJob n (job_timeStamp j) (job_delay j) (job_duration j) (job_location j) = j"
    using n by (cases j) simp
  have q': "nozzleQueueDict ?c' n = Some (deque_append q j)"
    using Cons.prems n j by (simp add: receive_job_step receive_queue_own)
  have lock': "nozzleconditionDict ?c' n = Some False"
    using Cons.prems n by (simp add: receive_job_step receive_condition)
  have ih: "nozzleQueueDict (exec (map receive_job js) ?c') n
      = Some (drop (length (deque_append q j @ js) - maxlen) (deque_append q j @ js))"
    using Cons.prems(1,3) by (intro Cons.IH q' lock' deque_append_length) simp_all
  have "nozzleQueueDict (exec (map receive_job (j # js)) c) n
      = nozzleQueueDict (exec (map receive_job js) ?c') n"
    by (simp add: exec_Cons)
  also note ih
  also have "Some (drop (length (deque_append q j @ js) - maxlen) (deque_append q j @ js))
      = Some (drop (length (q @ j # js) - maxlen) (q @ j # js))"
    by (simp only: drop_oldest_step [OF Cons.prems(3)])
  finally show ?case .
qed



lemma idle_exec:
  assumes n: "0 \<le> n" "n < int (length d)" and rel: "map_of d n = Some p"
  shows "received n evs = [] \<Longrightarrow>
         \<exists>w. threads (exec evs (Controller d)) n = Some w \<and>
           nozzleQueueDict (exec evs (Controller d)) n = Some [] \<and> \<not> nozzleOn w \<and>
           (if list_ex (is_run n) evs
            then pc w = Waiting \<and> calls_of n (exec evs (Controller d)) = [Off n p]
            else pc w = Ready \<and> calls_of n (exec evs (Controller d)) = [])"
proof (induction evs rule: rev_induct)
  case Nil
  show ?case using n by (simp add: exec_Nil Controller_fields calls_of_def)
next
  case (snoc e evs)
  let ?s = "exec evs (Controller d)"
  from snoc.prems have r: "received n evs = []" and re: "received n [e] = []"
    by (simp_all add: received_append)
  from snoc.IH [OF r] obtain w where
    w: "threads ?s n = Some w" and q: "nozzleQueueDict ?s n = Some []"
    and off: "\<not> nozzleOn w"
    and st: "if list_ex (is_run n) evs
            then pc w = Waiting \<and> calls_of n ?s = [Off n p]
            else pc w = Ready \<and> calls_of n ?s = []"
    by blast
  have rel': "map_of (solenoidDict (solenoid ?s)) n = Some p"
    using toggle_inv_exec [OF n rel, of evs] rel by (simp add: toggle_inv_def)
  show ?case
  proof (cases e)
    case (Receive m t l dl du)
    with re have "m \<noteq> n" by (auto split: if_splits)
    with Receive w q off st show ?thesis
      by (simp add: exec_snoc receive_queue_other receive_threads_other receive_calls_of)
  next
    case (Run m now)
    show ?thesis
    proof (cases "m = n")
      case False
      with Run w q off st show ?thesis
        by (auto simp add: exec_snoc consumer_frame)
    next
      case True
      show ?thesis
      proof (cases "list_ex (is_run n) evs")
        case ran: True
        with st have "pc w = Waiting" by simp
        then have "consumer n now ?s = ?s" using w by (simp add: consumer_idle)
        with Run True w q off st ran show ?thesis
          by (auto simp add: exec_snoc)
      next
        case False
        with st have rdy: "pc w = Ready" and cs: "calls_of n ?s = []" by simp_all
        from consumer_head_drain [OF q rel', where w = w] Run True w rdy cs off
        show ?thesis
          by (auto simp add: exec_snoc consumer_Ready)
      qed
    qed
  qed
qed


text \<open>
  The two dictionaries keep the same keys, and the lock of a nozzle that has a relay is
  free in every state the controller reaches: its thread never dies.
\<close>

lemma consumer_keys:
  assumes "nozzleconditionDict c n = None \<longleftrightarrow> nozzleQueueDict c n = None"
  shows "(nozzleQueueDict (consumer m now c) n = None \<longleftrightarrow> nozzleQueueDict c n = None)
       \<and> (nozzleconditionDict (consumer m now c) n = None \<longleftrightarrow> nozzleconditionDict c n = None)"
proof (cases "m = n")
  case False
  then show ?thesis by (simp add: consumer_frame)
next
  case True
  show ?thesis
  proof (cases "threads c n")
    case None
    then show ?thesis by (simp add: True consumer_idle)
  next
    case (Some w)
    show ?thesis
    proof (cases "pc w")
      case Ready
      with Some assms show ?thesis
        by (auto simp add: True consumer_Ready consumer_head_def
            split: option.splits list.splits prod.splits)
    next
      case (Working j)
      with Some show ?thesis
        by (simp add: True consumer_Working_snd set_pc_frame consumer_job_frame)
    next
      case Waiting
      with Some show ?thesis by (simp add: True consumer_idle)
    next
      case (Dead e)
      with Some show ?thesis by (simp add: True consumer_idle)
    qed
  qed
qed

lemma receive_keys:
  "nozzleQueueDict (snd (receive m t l dl du c)) n = None \<longleftrightarrow> nozzleQueueDict c n = None"
  by (cases "m = n") (simp_all add: receive_queue_other receive_queue_own split: option.splits)

lemma same_keys_exec:
  "nozzleconditionDict (exec evs (Controller d)) n = None \<longleftrightarrow>
   nozzleQueueDict (exec evs (Controller d)) n = None"
proof (induction evs rule: rev_induct)
  case Nil
  show ?case by (simp add: exec_Nil Controller_def)
next
  case (snoc e evs)
  show ?case
  proof (cases e)
    case (Receive m t l dl du)
    with snoc show ?thesis by (simp add: exec_snoc receive_keys receive_condition)
  next
    case (Run m now)
    with consumer_keys [OF snoc, of m now] snoc show ?thesis by (simp add: exec_snoc)
  qed
qed

lemma lock_free_exec:
  assumes "0 \<le> n" "n < int (length d)" "map_of d n = Some p"
  shows "nozzleconditionDict (exec evs (Controller d)) n = Some False"
    and "nozzleQueueDict (exec evs (Controller d)) n \<noteq> None"
  using toggle_inv_exec [OF assms, of evs] unfolding toggle_inv_def by auto

text \<open>
  What is popped and what is pending against what was enqueued and what was evicted; and
  the thread of a nozzle with a relay, left to run, empties its queue.
\<close>

lemma enqueued_snoc:
  "enqueued n (evs @ [e]) c = enqueued n evs c @ enqueued_by n e (exec evs c)"
  by (induction evs arbitrary: c) (simp_all add: exec_Nil exec_Cons)

lemma evicted_snoc:
  "evicted n (evs @ [e]) c = evicted n evs c @ evicted_by n e (exec evs c)"
  by (induction evs arbitrary: c) (simp_all add: exec_Nil exec_Cons)

lemma mset_deque_append:
  "mset (deque_append q x) + mset (deque_dropped q x) = mset q + {#x#}"
  by (cases q) (simp_all add: deque_append_def deque_dropped_def Let_def)

lemma receive_blocked:
  assumes "nozzleQueueDict c n = Some q" "nozzleconditionDict c n = Some True"
  shows "receive n t l dl du c = (Blocked, c)"
  using assms by (simp add: receive_def)

lemma receive_not_returned:
  "fst (receive n t l dl du c) \<noteq> Returned \<Longrightarrow> snd (receive n t l dl du c) = c"
  by (simp add: receive_def Let_def split: option.splits if_splits)

lemma accounting_exec:
  assumes "0 \<le> n" "n < int (length d)"
  shows "\<exists>w q. threads (exec evs (Controller d)) n = Some w \<and>
           nozzleQueueDict (exec evs (Controller d)) n = Some q \<and>
           subseq (popped w @ q) (enqueued n evs (Controller d)) \<and>
           mset (popped w @ q) + mset (evicted n evs (Controller d))
             = mset (enqueued n evs (Controller d))"
proof (induction evs rule: rev_induct)
  case Nil
  show ?case using assms by (simp add: exec_Nil Controller_fields)
next
  case (snoc e evs)
  let ?s = "exec evs (Controller d)"
  from snoc obtain w q where
    w: "threads ?s n = Some w" and q: "nozzleQueueDict ?s n = Some q"
    and sub: "subseq (popped w @ q) (enqueued n evs (Controller d))"
    and acc: "mset (popped w @ q) + mset (evicted n evs (Controller d))
             = mset (enqueued n evs (Controller d))"
    by blast
  show ?case
  proof (cases e)
    case (Receive m t l dl du)
    show ?thesis
    proof (cases "m = n \<and> fst (receive m t l dl du ?s) = Returned")
      case True
      then have mn: "m = n" and lock: "nozzleconditionDict ?s n = Some False"
        by (auto simp add: receive_returned)
      have q': "nozzleQueueDict (snd (receive n t l dl du ?s)) n
          = Some (deque_append q (SprayJob n t dl du l))"
        using q lock by (simp add: receive_queue_own)
      have w': "\<exists>w'. threads (snd (receive n t l dl du ?s)) n = Some w' \<and> popped w' = popped w"
        using w by (auto simp add: receive_threads_own)
      have sub': "subseq (popped w @ deque_append q (SprayJob n t dl du l))
          (enqueued n evs (Controller d) @ [SprayJob n t dl du l])"
        using sub by (rule subseq_deque_append)
      have acc': "mset (popped w @ deque_append q (SprayJob n t dl du l))
            + mset (evicted n evs (Controller d) @ deque_dropped q (SprayJob n t dl du l))
          = mset (enqueued n evs (Controller d) @ [SprayJob n t dl du l])"
        using acc mset_deque_append [of q "SprayJob n t dl du l"]
        by (simp add: ac_simps)
      from w' q' sub' acc' True mn Receive q show ?thesis
        by (auto simp add: exec_snoc enqueued_snoc evicted_snoc)
    next
      case False
      have "threads (snd (receive m t l dl du ?s)) n = Some w \<and>
            nozzleQueueDict (snd (receive m t l dl du ?s)) n = Some q"
      proof (cases "m = n")
        case True
        with False have "snd (receive m t l dl du ?s) = ?s"
          by (simp add: receive_not_returned)
        with w q show ?thesis by simp
      next
        case False
        with w q show ?thesis by (simp add: receive_queue_other receive_threads_other)
      qed
      with False Receive sub acc show ?thesis
        by (auto simp add: exec_snoc enqueued_snoc evicted_snoc)
    qed
  next
    case (Run m now)
    show ?thesis
    proof (cases "m = n")
      case False
      with Run w q sub acc show ?thesis
        by (simp add: exec_snoc enqueued_snoc evicted_snoc consumer_frame)
    next
      case True
      from consumer_popped_queue [OF w q, of now]
      obtain w' q' where
        w': "threads (consumer n now ?s) n = Some w'"
        and q': "nozzleQueueDict (consumer n now ?s) n = Some q'"
        and same: "popped w' @ q' = popped w @ q"
        by blast
      have "subseq (popped w' @ q') (enqueued n evs (Controller d))"
        using sub by (simp only: same)
      moreover have "mset (popped w' @ q') + mset (evicted n evs (Controller d))
          = mset (enqueued n evs (Controller d))"
        using acc by (simp only: same)
      ultimately show ?thesis
        using Run True w' q'
        by (simp add: exec_snoc enqueued_snoc evicted_snoc)
    qed
  qed
qed

lemma drain_steps_aux:
  assumes "map_of (solenoidDict (solenoid s)) n = Some p"
    and "threads s n = Some w" and "nozzleQueueDict s n = Some q"
    and "pc w = Waiting \<longrightarrow> q = []"
    and "(case pc w of Ready \<Rightarrow> 2 * length q + 1 | Working j \<Rightarrow> 2 * length q + 2
            | Waiting \<Rightarrow> 0 | Dead e \<Rightarrow> Suc (length nows)) \<le> length nows"
  shows "\<exists>w'. threads (exec (map (Run n) nows) s) n = Some w' \<and> pc w' = Waiting \<and>
           popped w' = popped w @ q \<and>
           nozzleQueueDict (exec (map (Run n) nows) s) n = Some []"
  using assms
proof (induction nows arbitrary: s w q)
  case Nil
  then show ?case by (cases "pc w") (simp_all add: exec_Nil)
next
  case (Cons now nows)
  let ?s1 = "consumer n now s"
  have rel1: "map_of (solenoidDict (solenoid ?s1)) n = Some p"
    using Cons.prems(1) by (simp add: consumer_frame)
  have ex: "exec (map (Run n) (now # nows)) s = exec (map (Run n) nows) ?s1"
    by (simp add: exec_Cons)
  show ?case
  proof (cases "pc w")
    case Ready
    show ?thesis
    proof (cases q)
      case Nil
      note hd = consumer_head_drain [OF Cons.prems(3) [unfolded Nil] Cons.prems(1), where w = w]
      have s1: "?s1 = consumer_head n w s"
        using Cons.prems(2) Ready by (simp add: consumer_Ready)
      from Cons.IH [OF rel1, of "w\<lparr>pc := Waiting, nozzleOn := False\<rparr>" "[]"] hd
      show ?thesis
        unfolding ex using Nil by (simp add: s1)
    next
      case (Cons j rest)
      note hp = consumer_head_pop [OF Cons.prems(3) [unfolded Cons], where w = w]
      have s1: "?s1 = consumer_head n w s"
        using Cons.prems(2) Ready by (simp add: consumer_Ready)
      from Cons.IH [OF rel1, of "w\<lparr>pc := Working j, popped := popped w @ [j]\<rparr>" rest]
        hp Cons.prems(5) Ready
      show ?thesis
        unfolding ex using Cons by (simp add: s1)
    qed
  next
    case (Working j)
    show ?thesis
    proof (cases "nozzleOn w")
      case True
      note st = consumer_Working_on [OF Cons.prems(2) Working True, where now = now]
      from Cons.IH [OF rel1 st(1), of q] st Cons.prems(3,5) Working
      show ?thesis unfolding ex by simp
    next
      case False
      note st = consumer_Working_off [OF Cons.prems(2) Working False Cons.prems(1),
          where now = now]
      from Cons.IH [OF rel1 st(1), of q] st Cons.prems(3,5) Working
      show ?thesis unfolding ex by simp
    qed
  next
    case Waiting
    then have "?s1 = s" using Cons.prems(2) by (simp add: consumer_idle)
    with Cons.IH [OF Cons.prems(1,2,3,4)] Waiting show ?thesis
      unfolding ex by simp
  next
    case (Dead e)
    with Cons.prems(5) show ?thesis by simp
  qed
qed

lemma drain_exec:
  assumes "0 \<le> n" "n < int (length d)" "map_of d n = Some p"
    and w: "threads (exec evs (Controller d)) n = Some w"
    and q: "nozzleQueueDict (exec evs (Controller d)) n = Some q"
    and len: "2 * length q + 2 \<le> length nows"
  shows "\<exists>w'. threads (exec (map (Run n) nows) (exec evs (Controller d))) n = Some w' \<and>
           pc w' = Waiting \<and> popped w' = popped w @ q \<and>
           nozzleQueueDict (exec (map (Run n) nows) (exec evs (Controller d))) n = Some []"
proof -
  let ?s = "exec evs (Controller d)"
  from toggle_inv_exec [OF assms(1-3), of evs] w q have
    sd: "solenoidDict (solenoid ?s) = d"
    and alive: "\<And>e. pc w \<noteq> Dead e"
    and parked: "pc w = Waiting \<longrightarrow> q = []"
    unfolding toggle_inv_def by auto
  have rel: "map_of (solenoidDict (solenoid ?s)) n = Some p"
    using sd assms(3) by simp
  have "(case pc w of Ready \<Rightarrow> 2 * length q + 1 | Working j \<Rightarrow> 2 * length q + 2
            | Waiting \<Rightarrow> 0 | Dead e \<Rightarrow> Suc (length nows)) \<le> length nows"
    using len alive by (cases "pc w") auto
  from drain_steps_aux [OF rel w q parked this] show ?thesis .
qed

lemma enqueued_received:
  assumes "0 \<le> n" "n < int (length d)" "map_of d n = Some p"
  shows "enqueued n evs (Controller d) = received n evs"
proof (induction evs rule: rev_induct)
  case Nil
  show ?case by simp
next
  case (snoc e evs)
  have "enqueued_by n e (exec evs (Controller d)) = received n [e]"
    using lock_free_exec [OF assms, of evs]
    by (cases e) (auto simp add: receive_returned)
  with snoc show ?case by (simp add: enqueued_snoc received_append)
qed

lemma process_step:
  assumes w: "threads c n = Some w" and pcw: "pc w = Working j"
    and rel: "map_of (solenoidDict (solenoid c)) n = Some p"
  shows "logger (consumer n now c) =
           logger c @ [Info (max 0 (job_duration j - (now - job_timeStamp j))) n]"
    and "map_option pc (threads (consumer n now c) n) = Some Ready"
    and "map_option popped (threads (consumer n now c) n) = Some (popped w)"
proof -
  show "logger (consumer n now c) =
           logger c @ [Info (max 0 (job_duration j - (now - job_timeStamp j))) n]"
    using assms
    by (cases "nozzleOn w")
      (simp_all add: consumer_Working consumer_job_on consumer_job_off set_pc_def Let_def)
  show "map_option pc (threads (consumer n now c) n) = Some Ready"
    using assms
    by (cases "nozzleOn w")
      (simp_all add: consumer_Working consumer_job_on consumer_job_off set_pc_def Let_def)
  show "map_option popped (threads (consumer n now c) n) = Some (popped w)"
    using assms
    by (cases "nozzleOn w")
      (simp_all add: consumer_Working consumer_job_on consumer_job_off set_pc_def Let_def)
qed

section \<open>The claims about one job\<close>

lemma late_job_state:
  "threads late_job 0 =
     Some \<lparr>pc = Working (SprayJob 0 0 0 1 0), nozzleOn = False,
           popped = [SprayJob 0 0 0 1 0], slept = []\<rparr>"
  "solenoid late_job = \<lparr>solenoidDict = [(0, 13)], calls = []\<rparr>"
  "logger late_job = [Audit 0 0 0 1 0]"
  by (simp_all add: late_job_def one_nozzle_def model_defs)

text \<open>
  C1. A job whose raw on-duration, \<open>duration - (now - timeStamp)\<close>, is negative should get
  a zero wait and the error-tagged log line. The code clamps \<open>onDur\<close> to 0 before
  \<open>time.sleep(onDur)\<close>, so the sleep never raises and the handler that writes the
  \<open>[ERROR]\<close> line is never entered: the job detected at time 0 with duration 1 and
  processed at time 5 (raw on-duration \<open>-4\<close>) sleeps 0 and logs the \<open>[INFO]\<close> line with
  on-duration 0.
\<close>

theorem negative_onDur_logged_as_info:
  "job_duration (SprayJob 0 0 0 1 (0::nat)) - (5 - job_timeStamp (SprayJob 0 0 0 1 (0::nat))) = - 4
   \<and> logger (exec [Receive 0 0 0 0 1, Run 0 0, Run 0 5] one_nozzle)
       = [Audit 0 0 0 1 0, Info 0 0]
   \<and> map_option slept (threads (exec [Receive 0 0 0 0 1, Run 0 0, Run 0 5] one_nozzle) 0)
       = Some [0, 0]"
  by (simp add: one_nozzle_def model_defs)

text \<open>
  C3. A thread that has popped job \<open>j\<close> and reads the clock value \<open>now\<close> sleeps
  \<open>max 0 (duration - (now - timeStamp))\<close> as on-duration and logs that value; it is never
  negative, and it is 0 when the elapsed time is at least the duration. If the nozzle
  was off, the relay is switched on all the same (one \<open>on()\<close> call), and the nozzle is on
  afterwards. The nozzle has a relay under its number.
\<close>

theorem effective_on_duration:
  assumes "threads c n = Some w" and "pc w = Working j"
    and "map_of (solenoidDict (solenoid c)) n = Some p"
  shows "\<exists>w'. threads (consumer n now c) n = Some w' \<and>
           slept w' \<noteq> [] \<and>
           last (slept w') = max 0 (job_duration j - (now - job_timeStamp j)) \<and>
           0 \<le> last (slept w') \<and>
           (job_duration j \<le> now - job_timeStamp j \<longrightarrow> last (slept w') = 0) \<and>
           logger (consumer n now c) =
             logger c @ [Info (max 0 (job_duration j - (now - job_timeStamp j))) n] \<and>
           nozzleOn w' \<and>
           calls (solenoid (consumer n now c)) =
             calls (solenoid c) @ (if nozzleOn w then [] else [On n p])"
proof (cases "nozzleOn w")
  case True
  show ?thesis
    using assms True
    by (simp add: consumer_Working consumer_job_on set_pc_def)
next
  case False
  show ?thesis
    using assms False
    by (simp add: consumer_Working consumer_job_off set_pc_def Let_def)
qed

theorem effective_on_duration_witness:
  "\<exists>w'. threads (consumer 0 5 late_job) 0 = Some w' \<and>
         last (slept w') = 0 \<and> nozzleOn w' \<and>
         logger (consumer 0 5 late_job) = [Audit 0 0 0 1 0, Info 0 0] \<and>
         calls (solenoid (consumer 0 5 late_job)) = [On 0 13]"
  using effective_on_duration [of late_job 0 _ "SprayJob 0 0 0 1 0" 13 5]
  by (auto simp add: late_job_state)

text \<open>
  C4. With the nozzle off, the thread first sleeps the delay: 0 if the on-duration is 0,
  else \<open>max 0 (delay - (now - timeStamp))\<close> (a negative argument makes \<open>time.sleep\<close>
  raise, and the handler sleeps 0). Nothing is logged for it: the one line the job adds to
  the log is the \<open>[INFO]\<close> line of the on-duration.
\<close>

theorem effective_delay:
  assumes "threads c n = Some w" and "pc w = Working j" and "\<not> nozzleOn w"
    and "map_of (solenoidDict (solenoid c)) n = Some p"
  shows "\<exists>w'. threads (consumer n now c) n = Some w' \<and>
           slept w' = slept w @
             [if max 0 (job_duration j - (now - job_timeStamp j)) = 0 then 0
              else max 0 (job_delay j - (now - job_timeStamp j)),
              max 0 (job_duration j - (now - job_timeStamp j))] \<and>
           logger (consumer n now c) =
             logger c @ [Info (max 0 (job_duration j - (now - job_timeStamp j))) n]"
  using assms
  by (simp add: consumer_Working consumer_job_off set_pc_def Let_def)

theorem effective_delay_witness:
  "\<exists>w'. threads (consumer 0 (1/2) late_job) 0 = Some w' \<and>
         slept w' = [0, 1/2] \<and>
         logger (consumer 0 (1/2) late_job) = [Audit 0 0 0 1 0, Info (1/2) 0]"
  using effective_delay [of late_job 0 _ "SprayJob 0 0 0 1 0" 13 "1/2"]
  by (auto simp add: late_job_state)

section \<open>The claims about the queue\<close>

lemma two_jobs_run:
  "calls_of 0 (exec two_jobs one_nozzle) = [Off 0 13, On 0 13, Off 0 13]"
  "threads (exec two_jobs one_nozzle) 0 =
     Some \<lparr>pc = Waiting, nozzleOn = False,
           popped = [SprayJob 0 1 0 2 0, SprayJob 0 (11/10) 0 2 0],
           slept = [0, 9/5, 1/10]\<rparr>"
  "nozzleQueueDict (exec two_jobs one_nozzle) 0 = Some []"
  "logger (exec two_jobs one_nozzle) =
     [Audit 0 1 0 2 0, Audit 0 (11/10) 0 2 0, Info (9/5) 0, Info (1/10) 0]"
  by (simp_all add: two_jobs_def one_nozzle_def calls_of_def model_defs)

lemma parked_state:
  "threads parked 0 = Some \<lparr>pc = Waiting, nozzleOn = False, popped = [], slept = []\<rparr>"
  "solenoid parked = \<lparr>solenoidDict = [(0, 13)], calls = [Off 0 13]\<rparr>"
  "nozzleQueueDict parked 0 = Some []"
  "nozzleconditionDict parked 0 = Some False"
  "logger parked = []"
  by (simp_all add: parked_def one_nozzle_def model_defs)


lemma overflow_state:
  "threads (exec overflow one_nozzle) 0 =
     Some \<lparr>pc = Ready, nozzleOn = False, popped = [], slept = []\<rparr>"
  "nozzleQueueDict (exec overflow one_nozzle) 0 = Some (tl six_jobs)"
  "enqueued 0 overflow one_nozzle = six_jobs"
  "evicted 0 overflow one_nozzle = [SprayJob 0 1 0 1 0]"
  "received 0 overflow = six_jobs"
  by (simp_all add: overflow_def six_jobs_def receive_job_def one_nozzle_def calls_of_def
      deque_dropped_def model_defs)

lemma dead_locked_state:
  "nozzleQueueDict dead_locked 0 = Some []"
  "nozzleconditionDict dead_locked 0 = Some True"
  "map_option pc (threads dead_locked 0) = Some (Dead KeyError)"
  "logger dead_locked = []"
  by (simp_all add: dead_locked_def model_defs)

text \<open>
  C5. In every state the controller reaches, every queue holds at most 5 jobs. Jobs
  received for one nozzle with no thread step in between leave the last 5 of them in the
  queue, in the order received; for six jobs, the first is gone and the other five stay.
\<close>

theorem queue_drop_oldest:
  fixes evs :: "'l event list" and js :: "'l sprayJob list" and l1 l2 l3 l4 l5 l6 :: 'l
  assumes "0 \<le> n" and "n < int (length d)"
  shows "(\<forall>m q. nozzleQueueDict (exec evs (Controller d)) m = Some q \<longrightarrow> length q \<le> 5)
       \<and> ((\<forall>j \<in> set js. job_nozzle j = n) \<longrightarrow>
            nozzleQueueDict (exec (map receive_job js) (Controller d)) n
              = Some (drop (length js - 5) js))
       \<and> nozzleQueueDict
            (exec [Receive n t1 l1 d1 u1, Receive n t2 l2 d2 u2, Receive n t3 l3 d3 u3,
                   Receive n t4 l4 d4 u4, Receive n t5 l5 d5 u5, Receive n t6 l6 d6 u6]
               (Controller d)) n
          = Some [SprayJob n t2 d2 u2 l2, SprayJob n t3 d3 u3 l3, SprayJob n t4 d4 u4 l4,
                  SprayJob n t5 d5 u5 l5, SprayJob n t6 d6 u6 l6]"
proof (intro conjI allI impI)
  fix m q
  assume "nozzleQueueDict (exec evs (Controller d)) m = Some q"
  then show "length q \<le> 5"
    using queue_capacity_exec [of evs d m q] by (simp add: maxlen_def)
next
  assume "\<forall>j \<in> set js. job_nozzle j = n"
  then show "nozzleQueueDict (exec (map receive_job js) (Controller d)) n
      = Some (drop (length js - 5) js)"
    using receive_jobs_queue [of js n "Controller d" "[]"] assms
    by (simp add: Controller_fields maxlen_def)
next
  show "nozzleQueueDict
            (exec [Receive n t1 l1 d1 u1, Receive n t2 l2 d2 u2, Receive n t3 l3 d3 u3,
                   Receive n t4 l4 d4 u4, Receive n t5 l5 d5 u5, Receive n t6 l6 d6 u6]
               (Controller d)) n
          = Some [SprayJob n t2 d2 u2 l2, SprayJob n t3 d3 u3 l3, SprayJob n t4 d4 u4 l4,
                  SprayJob n t5 d5 u5 l5, SprayJob n t6 d6 u6 l6]"
    using receive_jobs_queue [of "[SprayJob n t1 d1 u1 l1, SprayJob n t2 d2 u2 l2,
          SprayJob n t3 d3 u3 l3, SprayJob n t4 d4 u4 l4, SprayJob n t5 d5 u5 l5,
          SprayJob n t6 d6 u6 l6]" n "Controller d" "[]"] assms
    by (simp add: Controller_fields receive_job_def maxlen_def)
qed

theorem queue_drop_oldest_witness:
  "nozzleQueueDict (exec (map receive_job six_jobs) one_nozzle) 0 = Some (tl six_jobs)
   \<and> length (tl six_jobs) = 5"
  using queue_drop_oldest [of 0 "[(0, 13)]" "map receive_job six_jobs" six_jobs
      1 0 0 1 2 0 0 1 3 0 0 1 4 0 0 1 5 0 0 1 6 0 0 1]
  by (simp add: one_nozzle_def [symmetric]) (simp add: six_jobs_def)

text \<open>
  C7. For a nozzle with a queue, in every state the controller reaches: the jobs its
  thread has popped so far, followed by the jobs still in its queue, are a subsequence of
  the jobs enqueued for it (the jobs of the calls of \<open>receive\<close> that returned), so they
  keep the order in which they were enqueued; with the jobs the deque dropped on overflow
  they are exactly the jobs enqueued, so a job is missing only if it was evicted. The job
  the thread is processing is the one it popped last, and a thread that finds jobs in its
  queue pops the oldest. If the nozzle has a relay, every call of \<open>receive\<close> for it
  returns, the thread processes the job it popped and comes back for the next one, and
  after \<open>2 * length q + 2\<close> of its steps it has popped every pending job, in the order of
  the queue, and waits on an empty queue.
\<close>

theorem fifo_per_channel:
  fixes evs :: "'l event list"
  assumes "0 \<le> n" and "n < int (length d)"
  shows "\<exists>w q. threads (exec evs (Controller d)) n = Some w \<and>
           nozzleQueueDict (exec evs (Controller d)) n = Some q \<and>
           subseq (popped w @ q) (enqueued n evs (Controller d)) \<and>
           mset (popped w @ q) + mset (evicted n evs (Controller d))
             = mset (enqueued n evs (Controller d)) \<and>
           (\<forall>j. pc w = Working j \<longrightarrow> popped w \<noteq> [] \<and> last (popped w) = j) \<and>
           (\<forall>j rest. pc w = Ready \<and> q = j # rest \<longrightarrow>
              threads (consumer n now (exec evs (Controller d))) n
                = Some (w\<lparr>pc := Working j, popped := popped w @ [j]\<rparr>) \<and>
              nozzleQueueDict (consumer n now (exec evs (Controller d))) n = Some rest) \<and>
           (map_of d n = Some p \<longrightarrow>
              enqueued n evs (Controller d) = received n evs \<and>
              (\<forall>j. pc w = Working j \<longrightarrow>
                 logger (consumer n now (exec evs (Controller d))) =
                   logger (exec evs (Controller d))
                     @ [Info (max 0 (job_duration j - (now - job_timeStamp j))) n] \<and>
                 map_option pc (threads (consumer n now (exec evs (Controller d))) n)
                   = Some Ready) \<and>
              (2 * length q + 2 \<le> length nows \<longrightarrow>
                 (\<exists>w'. threads (exec (map (Run n) nows) (exec evs (Controller d))) n = Some w' \<and>
                    pc w' = Waiting \<and> popped w' = popped w @ q) \<and>
                 nozzleQueueDict (exec (map (Run n) nows) (exec evs (Controller d))) n
                   = Some []))"
proof -
  let ?s = "exec evs (Controller d)"
  from accounting_exec [OF assms, of evs] obtain w q where
    w: "threads ?s n = Some w" and q: "nozzleQueueDict ?s n = Some q"
    and sub: "subseq (popped w @ q) (enqueued n evs (Controller d))"
    and acc: "mset (popped w @ q) + mset (evicted n evs (Controller d))
             = mset (enqueued n evs (Controller d))"
    by blast
  have cur: "\<forall>j. pc w = Working j \<longrightarrow> popped w \<noteq> [] \<and> last (popped w) = j"
    using fifo_exec [OF assms, of evs] w by auto
  have pop: "\<forall>j rest. pc w = Ready \<and> q = j # rest \<longrightarrow>
      threads (consumer n now ?s) n = Some (w\<lparr>pc := Working j, popped := popped w @ [j]\<rparr>) \<and>
      nozzleQueueDict (consumer n now ?s) n = Some rest"
    using w q consumer_head_pop(1,2) [where c = ?s and n = n and w = w]
    by (auto simp add: consumer_Ready)
  have live: "enqueued n evs (Controller d) = received n evs \<and>
      (\<forall>j. pc w = Working j \<longrightarrow>
         logger (consumer n now ?s) =
           logger ?s @ [Info (max 0 (job_duration j - (now - job_timeStamp j))) n] \<and>
         map_option pc (threads (consumer n now ?s) n) = Some Ready) \<and>
      (2 * length q + 2 \<le> length nows \<longrightarrow>
         (\<exists>w'. threads (exec (map (Run n) nows) ?s) n = Some w' \<and>
            pc w' = Waiting \<and> popped w' = popped w @ q) \<and>
         nozzleQueueDict (exec (map (Run n) nows) ?s) n = Some [])"
    if rel: "map_of d n = Some p"
  proof (intro conjI allI impI)
    show "enqueued n evs (Controller d) = received n evs"
      using assms rel by (rule enqueued_received)
  next
    have sd: "map_of (solenoidDict (solenoid ?s)) n = Some p"
      using toggle_inv_exec [OF assms rel, of evs] rel by (simp add: toggle_inv_def)
    fix j assume j: "pc w = Working j"
    show "logger (consumer n now ?s) =
           logger ?s @ [Info (max 0 (job_duration j - (now - job_timeStamp j))) n]"
      using w j sd by (rule process_step(1))
    show "map_option pc (threads (consumer n now ?s) n) = Some Ready"
      using w j sd by (rule process_step(2))
  next
    assume len: "2 * length q + 2 \<le> length nows"
    from drain_exec [OF assms rel w q len]
    show "\<exists>w'. threads (exec (map (Run n) nows) ?s) n = Some w' \<and>
            pc w' = Waiting \<and> popped w' = popped w @ q"
      and "nozzleQueueDict (exec (map (Run n) nows) ?s) n = Some []"
      by blast+
  qed
  from w q sub acc cur pop live show ?thesis by blast
qed

theorem fifo_per_channel_witness:
  "enqueued 0 overflow one_nozzle = six_jobs \<and>
   evicted 0 overflow one_nozzle = [SprayJob 0 1 0 1 0] \<and>
   (\<exists>w'. threads (exec (map (Run 0) (replicate 12 7)) (exec overflow one_nozzle)) 0 = Some w' \<and>
      pc w' = Waiting \<and> popped w' = tl six_jobs) \<and>
   map_option popped (threads (consumer 0 7 (exec overflow one_nozzle)) 0)
     = Some [SprayJob 0 2 0 1 0]"
  using fifo_per_channel [where n = 0 and d = "[(0, 13)]" and p = 13 and evs = overflow
      and now = 7 and nows = "replicate 12 7"]
  by (simp add: one_nozzle_def [symmetric] overflow_state) (simp add: six_jobs_def)

text \<open>
  C8, as the claim states it, fails: in \<open>dead_locked\<close> number 0 has a queue, but its thread
  died in \<open>relay_off\<close> with the lock held, and a call of \<open>receive\<close> for 0 never gets the
  lock: it enqueues nothing and logs nothing.
\<close>

theorem receive_blocked_counterexample:
  "nozzleQueueDict dead_locked 0 = Some [] \<and>
   receive 0 1 0 0 1 dead_locked = (Blocked, dead_locked)"
  using receive_blocked [of dead_locked 0 "[]" 1 0 0 1]
  by (simp add: dead_locked_state)

text \<open>
  C8, amended. When the queue and the condition dictionaries have the same keys (they are
  filled together and never changed), \<open>receive\<close> raises KeyError exactly if the nozzle has
  no queue, and then changes nothing. When the nozzle has a queue and the lock of its
  condition is free, the call returns: the queue of that nozzle, and no other, gets the
  job at its end (the oldest job is dropped from a full queue), and the log gets one line
  with the nozzle, the time stamp, the delay, the duration and the location. When the
  nozzle has a queue and the lock is held, the call never returns and changes nothing.
\<close>

theorem receive_effect:
  assumes "nozzleconditionDict c n = None \<longleftrightarrow> nozzleQueueDict c n = None"
  shows "(fst (receive n t l dl du c) = Raised KeyError \<longleftrightarrow> nozzleQueueDict c n = None)
       \<and> (fst (receive n t l dl du c) = Raised KeyError \<longrightarrow> snd (receive n t l dl du c) = c)
       \<and> (\<forall>q. nozzleQueueDict c n = Some q \<and> nozzleconditionDict c n = Some False \<longrightarrow>
            fst (receive n t l dl du c) = Returned \<and>
            nozzleQueueDict (snd (receive n t l dl du c)) =
              (nozzleQueueDict c)(n \<mapsto>
                 (if length q < 5 then q else tl q) @ [SprayJob n t dl du l]) \<and>
            logger (snd (receive n t l dl du c)) = logger c @ [Audit n t dl du l] \<and>
            solenoid (snd (receive n t l dl du c)) = solenoid c)
       \<and> (\<forall>q. nozzleQueueDict c n = Some q \<and> nozzleconditionDict c n = Some True \<longrightarrow>
            receive n t l dl du c = (Blocked, c))"
  using assms
  by (auto simp add: receive_def notify_def log_line_def Let_def deque_append_alt maxlen_def
      split: option.splits)

theorem receive_effect_witness:
  "fst (receive 0 1 0 0 1 parked) = Returned \<and>
   nozzleQueueDict (snd (receive 0 1 0 0 1 parked)) 0 = Some [SprayJob 0 1 0 1 0] \<and>
   logger (snd (receive 0 1 0 0 1 parked)) = [Audit 0 1 0 1 0] \<and>
   receive 7 1 0 0 1 parked = (Raised KeyError, parked) \<and>
   receive 0 1 0 0 1 dead_locked = (Blocked, dead_locked)"
proof -
  have "nozzleQueueDict parked 7 = None" "nozzleconditionDict parked 7 = None"
    by (simp_all add: parked_def one_nozzle_def model_defs)
  with receive_effect [of parked 0 1 0 0 1] receive_effect [of parked 7 1 0 0 1]
    receive_effect [of dead_locked 0 1 0 0 1]
  show ?thesis
    by (simp add: parked_state dead_locked_state prod_eq_iff)
qed

section \<open>The claims about the relay calls of a thread\<close>

text \<open>
  C6. For a nozzle that has a relay, in every state the controller reaches the relay
  calls made for it so far are activations \<open>on()\<close>, \<open>off()\<close>, one after the other, after
  at most one \<open>off()\<close> at the start and before one last \<open>on()\<close> if the nozzle is on now:
  between two \<open>off()\<close> calls there is exactly one \<open>on()\<close>, however many jobs were processed.
  A job processed while the nozzle is on adds no call.
\<close>

theorem energize_once_per_run:
  fixes evs :: "'l event list"
  assumes "0 \<le> n" and "n < int (length d)" and "map_of d n = Some p"
  shows "\<exists>w k first. threads (exec evs (Controller d)) n = Some w \<and>
           (first = [] \<or> first = [Off n p]) \<and>
           calls_of n (exec evs (Controller d)) =
             first @ concat (replicate k [On n p, Off n p])
                   @ (if nozzleOn w then [On n p] else []) \<and>
           (\<forall>j. pc w = Working j \<and> nozzleOn w \<longrightarrow>
              calls_of n (consumer n now (exec evs (Controller d))) =
                calls_of n (exec evs (Controller d)))"
proof -
  let ?s = "exec evs (Controller d)"
  from toggle_inv_exec [OF assms, of evs] obtain w k first where
    w: "threads ?s n = Some w"
    and first: "first = [] \<or> first = [Off n p]"
    and shape: "calls_of n ?s =
      first @ concat (replicate k [On n p, Off n p]) @ (if nozzleOn w then [On n p] else [])"
    unfolding toggle_inv_def toggled_def toggles_def by blast
  have "calls_of n (consumer n now ?s) = calls_of n ?s" if "pc w = Working j \<and> nozzleOn w" for j
    using that consumer_Working_on(4) [OF w, where j = j and now = now and m = n] by simp
  with w first shape show ?thesis by blast
qed

theorem energize_once_per_run_witness:
  "(\<exists>w k first. threads (exec two_jobs one_nozzle) 0 = Some w \<and>
           (first = [] \<or> first = [Off 0 13]) \<and>
           calls_of 0 (exec two_jobs one_nozzle) =
             first @ concat (replicate k [On 0 13, Off 0 13])
                   @ (if nozzleOn w then [On 0 13] else []))
   \<and> calls_of 0 (exec two_jobs one_nozzle) = [Off 0 13, On 0 13, Off 0 13]
   \<and> map_option popped (threads (exec two_jobs one_nozzle) 0) =
        Some [SprayJob 0 1 0 2 0, SprayJob 0 (11/10) 0 2 0]"
  using energize_once_per_run [where n = 0 and d = "[(0, 13)]" and p = 13
      and evs = two_jobs and now = 4]
  by (simp add: one_nozzle_def [symmetric] two_jobs_run)

text \<open>
  C2, as the claim states it, fails: a thread that starts on an empty queue calls
  \<open>relay_off\<close> once before it waits, with no \<open>receive\<close> for its nozzle.
\<close>

theorem idle_worker_counterexample:
  "received 0 [Run 0 0 :: nat event] = [] \<and> calls_of 0 (exec [Run 0 0] one_nozzle) = [Off 0 13]"
  by (simp add: one_nozzle_def calls_of_def model_defs)


text \<open>
  C2, amended. For a nozzle that has a relay: as long as no job was received for it, the
  relay calls made for it are none before the first step of its thread and one \<open>off()\<close>
  after it, and never an \<open>on()\<close>. In every state the controller reaches, a thread that
  finds its queue empty calls \<open>off()\<close> once and waits with the nozzle off; a waiting
  thread makes no call, and up to then every \<open>on()\<close> was followed by exactly one \<open>off()\<close>.
\<close>

theorem idle_worker_calls:
  fixes evs :: "'l event list"
  assumes "0 \<le> n" and "n < int (length d)" and "map_of d n = Some p"
  shows "(received n evs = [] \<longrightarrow>
            calls_of n (exec evs (Controller d)) =
              (if list_ex (is_run n) evs then [Off n p] else []))
       \<and> (\<exists>w q. threads (exec evs (Controller d)) n = Some w \<and>
             nozzleQueueDict (exec evs (Controller d)) n = Some q \<and>
             (pc w = Ready \<and> q = [] \<longrightarrow>
                calls_of n (consumer n now (exec evs (Controller d))) =
                  calls_of n (exec evs (Controller d)) @ [Off n p] \<and>
                map_option pc (threads (consumer n now (exec evs (Controller d))) n) = Some Waiting \<and>
                map_option nozzleOn (threads (consumer n now (exec evs (Controller d))) n) = Some False) \<and>
             (pc w = Waiting \<longrightarrow>
                consumer n now (exec evs (Controller d)) = exec evs (Controller d) \<and>
                \<not> nozzleOn w \<and>
                (\<exists>k first. (first = [] \<or> first = [Off n p]) \<and>
                   calls_of n (exec evs (Controller d)) =
                     first @ concat (replicate k [On n p, Off n p]))))"
proof (intro conjI impI)
  assume "received n evs = []"
  from idle_exec [OF assms this]
  show "calls_of n (exec evs (Controller d)) =
          (if list_ex (is_run n) evs then [Off n p] else [])"
    by (auto split: if_splits)
next
  let ?s = "exec evs (Controller d)"
  from toggle_inv_exec [OF assms, of evs] obtain w q where
    sd: "solenoidDict (solenoid ?s) = d"
    and w: "threads ?s n = Some w" and q: "nozzleQueueDict ?s n = Some q"
    and shape: "toggled n p (nozzleOn w) (calls_of n ?s)"
    and waiting: "pc w = Waiting \<longrightarrow> \<not> nozzleOn w"
    unfolding toggle_inv_def by blast
  have rel: "map_of (solenoidDict (solenoid ?s)) n = Some p"
    using sd assms by simp
  have drain: "calls_of n (consumer n now ?s) = calls_of n ?s @ [Off n p] \<and>
      map_option pc (threads (consumer n now ?s) n) = Some Waiting \<and>
      map_option nozzleOn (threads (consumer n now ?s) n) = Some False"
    if "pc w = Ready \<and> q = []"
    using that consumer_head_drain [OF _ rel, where w = w] w q
    by (simp add: consumer_Ready)
  have park: "consumer n now ?s = ?s \<and> \<not> nozzleOn w \<and>
      (\<exists>k first. (first = [] \<or> first = [Off n p]) \<and>
         calls_of n ?s = first @ concat (replicate k [On n p, Off n p]))"
    if "pc w = Waiting"
  proof -
    have "\<not> nozzleOn w" using that waiting by simp
    moreover have "consumer n now ?s = ?s" using that w by (simp add: consumer_idle)
    moreover have "\<exists>k first. (first = [] \<or> first = [Off n p]) \<and>
         calls_of n ?s = first @ concat (replicate k [On n p, Off n p])"
      using shape \<open>\<not> nozzleOn w\<close> unfolding toggled_def toggles_def by auto
    ultimately show ?thesis by blast
  qed
  from w q drain park
  show "\<exists>w q. threads ?s n = Some w \<and> nozzleQueueDict ?s n = Some q \<and>
      (pc w = Ready \<and> q = [] \<longrightarrow>
         calls_of n (consumer n now ?s) = calls_of n ?s @ [Off n p] \<and>
         map_option pc (threads (consumer n now ?s) n) = Some Waiting \<and>
         map_option nozzleOn (threads (consumer n now ?s) n) = Some False) \<and>
      (pc w = Waiting \<longrightarrow>
         consumer n now ?s = ?s \<and> \<not> nozzleOn w \<and>
         (\<exists>k first. (first = [] \<or> first = [Off n p]) \<and>
            calls_of n ?s = first @ concat (replicate k [On n p, Off n p])))"
    by blast
qed

theorem idle_worker_calls_witness:
  "calls_of 0 (exec [Run 0 0, Run 1 0, Run 0 1] (Controller [(0, 13), (1, 15)] :: nat controller))
     = [Off 0 13]"
  using idle_worker_calls [where n = 0 and d = "[(0, 13), (1, 15)]" and p = 13
      and evs = "[Run 0 0, Run 1 0, Run 0 1] :: nat event list" and now = 2]
  by simp


section \<open>The claims about RelayControl\<close>





text \<open>
  C10. \<open>stop()\<close> clears the dictionary and then switches off every relay of the, now
  empty, dictionary: it makes no \<open>off()\<close> call at all, it is \<open>clear()\<close>, and a relay that
  was energized stays energized.
\<close>

theorem stop_is_clear:
  "stop rc = (None, clear rc) \<and> calls (snd (stop rc)) = calls rc
   \<and> energized (calls (snd (stop rc))) p = energized (calls rc) p"
  by (simp add: stop_def all_off_def clear_def)


end
